theory Spec2Isabelle
  imports Main
begin

section \<open>JSON values, \<open>JSON.stringify\<close> and \<open>JSON.parse\<close>\<close>

text \<open>
  The sermon-note application keeps its notes and the strokes of its drawing layer as JSON
  text. A parsed value is a \<open>json\<close> term. A number \<open>JNum m k\<close> is the decimal
  \<open>m / 10 ^ k\<close>, so pointer coordinates with a fractional part are values of the
  model; rounding to a double and the exponent notation of very large and very small
  magnitudes are not modelled. A string is the list of bytes of its UTF-8 encoding. An
  object is the list of its own properties in JavaScript's enumeration order: array
  indices first, ascending, then the other keys in the order of their creation.
\<close>

datatype json = JNull | JBool bool | JNum int nat | JStr string
  | JArr "json list" | JObj "(string \<times> json) list"

abbreviation JInt :: "int \<Rightarrow> json" where
  "JInt n \<equiv> JNum n 0"

definition is_digit :: "char \<Rightarrow> bool" where
  "is_digit c = (48 \<le> (of_char c :: nat) \<and> (of_char c :: nat) \<le> 57)"

definition digit_char :: "nat \<Rightarrow> char" where
  "digit_char d = char_of (48 + d)"

definition digit_val :: "char \<Rightarrow> nat" where
  "digit_val c = of_char c - 48"

fun show_nat :: "nat \<Rightarrow> string" where
  "show_nat n = (if n < 10 then [digit_char n] else show_nat (n div 10) @ [digit_char (n mod 10)])"

declare show_nat.simps [simp del]

definition nat_of_digits :: "string \<Rightarrow> nat" where
  "nat_of_digits ds = foldl (\<lambda>acc c. 10 * acc + digit_val c) 0 ds"

fun normalise :: "int \<Rightarrow> nat \<Rightarrow> int \<times> nat" where
  "normalise m 0 = (m, 0)"
| "normalise m (Suc k) = (if m mod 10 = 0 then normalise (m div 10) k else (m, Suc k))"

definition show_num :: "int \<Rightarrow> nat \<Rightarrow> string" where
  "show_num m k =
     (let ds = show_nat (nat \<bar>m\<bar>);
          pad = replicate (Suc k - length ds) (CHR ''0'') @ ds;
          body = (if k = 0 then ds
                  else take (length pad - k) pad @ CHR ''.'' # drop (length pad - k) pad)
      in if m < 0 then CHR ''-'' # body else body)"

definition parse_frac :: "string \<Rightarrow> (string \<times> string) option" where
  "parse_frac r = (case r of
       [] \<Rightarrow> Some ([], [])
     | c # cs \<Rightarrow>
        if c = CHR ''.'' then
          (if takeWhile is_digit cs = [] then None
           else Some (takeWhile is_digit cs, dropWhile is_digit cs))
        else Some ([], r))"

definition parse_exp :: "string \<Rightarrow> (int \<times> string) option" where
  "parse_exp r = (case r of
       [] \<Rightarrow> Some (0, [])
     | c # cs \<Rightarrow>
        if c = CHR ''e'' \<or> c = CHR ''E'' then
          (let minus = (case cs of [] \<Rightarrow> False | d # _ \<Rightarrow> d = CHR ''-'');
               signed = (case cs of [] \<Rightarrow> False | d # _ \<Rightarrow> d = CHR ''-'' \<or> d = CHR ''+'');
               cs1 = (if signed then tl cs else cs);
               es = takeWhile is_digit cs1
           in if es = [] then None
              else Some (if minus then - int (nat_of_digits es) else int (nat_of_digits es),
                         dropWhile is_digit cs1))
        else Some (0, r))"

definition scale :: "int \<Rightarrow> nat \<Rightarrow> int \<Rightarrow> int \<times> nat" where
  "scale m k e =
     (if int k \<le> e then (m * 10 ^ nat (e - int k), 0) else normalise m (nat (int k - e)))"

definition parse_num :: "string \<Rightarrow> ((int \<times> nat) \<times> string) option" where
  "parse_num s =
     (let neg = (case s of [] \<Rightarrow> False | c # _ \<Rightarrow> c = CHR ''-'');
          s1 = (if neg then tl s else s);
          ds = takeWhile is_digit s1
      in if ds = [] then None
         else if 1 < length ds \<and> hd ds = CHR ''0'' then None
         else (case parse_frac (dropWhile is_digit s1) of
            None \<Rightarrow> None
          | Some (fs, r2) \<Rightarrow>
             (case parse_exp r2 of
                None \<Rightarrow> None
              | Some (e, r3) \<Rightarrow>
                 Some (scale (if neg then - int (nat_of_digits (ds @ fs)) else int (nat_of_digits (ds @ fs)))
                         (length fs) e, r3))))"

text \<open>
  \<open>show_num\<close> prints a decimal the way \<open>JSON.stringify\<close> prints a number in
  positional notation, and \<open>parse_num\<close> reads a JSON numeral with its optional
  fraction and exponent. Strings are printed with the escapes of \<open>JSON.stringify\<close>
  and read with all escapes of the JSON grammar.
\<close>

definition hex_char :: "nat \<Rightarrow> char" where
  "hex_char d = (if d < 10 then char_of (48 + d) else char_of (87 + d))"

definition hex_val :: "char \<Rightarrow> nat option" where
  "hex_val c = (let n = (of_char c :: nat) in
     if 48 \<le> n \<and> n \<le> 57 then Some (n - 48)
     else if 97 \<le> n \<and> n \<le> 102 then Some (n - 87)
     else if 65 \<le> n \<and> n \<le> 70 then Some (n - 55)
     else None)"

definition escape_char :: "char \<Rightarrow> string" where
  "escape_char c = (let n = (of_char c :: nat) in
     if n = 0x22 then [CHR 0x5C, CHR 0x22]
     else if n = 0x5C then [CHR 0x5C, CHR 0x5C]
     else if n = 8 then [CHR 0x5C, CHR ''b'']
     else if n = 12 then [CHR 0x5C, CHR ''f'']
     else if n = 10 then [CHR 0x5C, CHR ''n'']
     else if n = 13 then [CHR 0x5C, CHR ''r'']
     else if n = 9 then [CHR 0x5C, CHR ''t'']
     else if n < 32 then [CHR 0x5C, CHR ''u'', CHR ''0'', CHR ''0'', hex_char (n div 16), hex_char (n mod 16)]
     else [c])"

definition quote :: "string \<Rightarrow> string" where
  "quote s = CHR 0x22 # concat (map escape_char s) @ [CHR 0x22]"

fun stringify :: "json \<Rightarrow> string"
  and stringify_elems :: "json list \<Rightarrow> string"
  and stringify_members :: "(string \<times> json) list \<Rightarrow> string"
where
  "stringify JNull = ''null''"
| "stringify (JBool b) = (if b then ''true'' else ''false'')"
| "stringify (JNum m k) = show_num m k"
| "stringify (JStr s) = quote s"
| "stringify (JArr vs) = CHR ''['' # stringify_elems vs @ '']''"
| "stringify (JObj kvs) = CHR ''{'' # stringify_members kvs @ ''}''"
| "stringify_elems [] = []"
| "stringify_elems [v] = stringify v"
| "stringify_elems (v # w # vs) = stringify v @ CHR '','' # stringify_elems (w # vs)"
| "stringify_members [] = []"
| "stringify_members [(k, v)] = quote k @ CHR '':'' # stringify v"
| "stringify_members ((k, v) # kv # kvs) =
     quote k @ CHR '':'' # stringify v @ CHR '','' # stringify_members (kv # kvs)"

definition is_ws :: "char \<Rightarrow> bool" where
  "is_ws c = (c = CHR 0x20 \<or> c = CHR 0x09 \<or> c = CHR 0x0A \<or> c = CHR 0x0D)"

definition skip_ws :: "string \<Rightarrow> string" where
  "skip_ws s = dropWhile is_ws s"

definition utf8 :: "nat \<Rightarrow> string" where
  "utf8 n = (if n < 0x80 then [char_of n]
     else if n < 0x800 then [char_of (0xC0 + n div 64), char_of (0x80 + n mod 64)]
     else if n < 0x10000 then
       [char_of (0xE0 + n div 4096), char_of (0x80 + (n div 64) mod 64), char_of (0x80 + n mod 64)]
     else [char_of (0xF0 + n div 262144), char_of (0x80 + (n div 4096) mod 64),
           char_of (0x80 + (n div 64) mod 64), char_of (0x80 + n mod 64)])"

definition unescape :: "char \<Rightarrow> char option" where
  "unescape e = (if e = CHR 0x22 then Some (CHR 0x22)
     else if e = CHR 0x5C then Some (CHR 0x5C)
     else if e = CHR ''/'' then Some (CHR ''/'')
     else if e = CHR ''b'' then Some (CHR 0x08)
     else if e = CHR ''f'' then Some (CHR 0x0C)
     else if e = CHR ''n'' then Some (CHR 0x0A)
     else if e = CHR ''r'' then Some (CHR 0x0D)
     else if e = CHR ''t'' then Some (CHR 0x09)
     else None)"

definition hex4 :: "char \<Rightarrow> char \<Rightarrow> char \<Rightarrow> char \<Rightarrow> nat option" where
  "hex4 a b c d = (case (hex_val a, hex_val b, hex_val c, hex_val d) of
      (Some w, Some x, Some y, Some z) \<Rightarrow> Some (((w * 16 + x) * 16 + y) * 16 + z)
    | _ \<Rightarrow> None)"

definition low_surrogate :: "nat \<Rightarrow> string \<Rightarrow> nat option" where
  "low_surrogate n s =
     (if 0xD800 \<le> n \<and> n < 0xDC00 then
        (case s of
           b # u # l1 # l2 # l3 # l4 # _ \<Rightarrow>
             if b = CHR 0x5C \<and> u = CHR ''u'' then
               (case hex4 l1 l2 l3 l4 of
                  None \<Rightarrow> None
                | Some m \<Rightarrow> if 0xDC00 \<le> m \<and> m < 0xE000 then Some m else None)
             else None
         | _ \<Rightarrow> None)
      else None)"

fun parse_chars :: "string \<Rightarrow> (string \<times> string) option" where
  "parse_chars [] = None"
| "parse_chars (c # cs) =
     (if c = CHR 0x22 then Some ([], cs)
      else if c = CHR 0x5C then
        (case cs of
           [] \<Rightarrow> None
         | e # cs1 \<Rightarrow>
            if e = CHR ''u'' then
              (case cs1 of
                 h1 # h2 # h3 # h4 # cs2 \<Rightarrow>
                   (case hex4 h1 h2 h3 h4 of
                      None \<Rightarrow> None
                    | Some n \<Rightarrow>
                       (case low_surrogate n cs2 of
                          None \<Rightarrow> map_option (\<lambda>(s, r). (utf8 n @ s, r)) (parse_chars cs2)
                        | Some m \<Rightarrow>
                           map_option
                             (\<lambda>(s, r). (utf8 (0x10000 + (n - 0xD800) * 1024 + (m - 0xDC00)) @ s, r))
                             (parse_chars (drop 6 cs2))))
               | _ \<Rightarrow> None)
            else
              (case unescape e of
                 None \<Rightarrow> None
               | Some ch \<Rightarrow> map_option (\<lambda>(s, r). (ch # s, r)) (parse_chars cs1)))
      else if (of_char c :: nat) < 32 then None
      else map_option (\<lambda>(s, r). (c # s, r)) (parse_chars cs))"

text \<open>
  \<open>obj_put\<close> is the assignment \<open>o[k] = v\<close> on an object: an existing key keeps its
  place, a new array index is inserted among the indices, any other new key is appended.
\<close>

definition is_array_index :: "string \<Rightarrow> bool" where
  "is_array_index k =
     (k \<noteq> [] \<and> list_all is_digit k \<and> (k = ''0'' \<or> hd k \<noteq> CHR ''0'')
      \<and> nat_of_digits k < 4294967295)"

definition index_below :: "string \<Rightarrow> string \<times> 'a \<Rightarrow> bool" where
  "index_below k kv = (is_array_index (fst kv) \<and> nat_of_digits (fst kv) < nat_of_digits k)"

definition obj_put :: "(string \<times> 'a) list \<Rightarrow> string \<Rightarrow> 'a \<Rightarrow> (string \<times> 'a) list" where
  "obj_put kvs k v =
     (if k \<in> set (map fst kvs) then map (\<lambda>(k', v'). if k' = k then (k', v) else (k', v')) kvs
      else if is_array_index k
      then takeWhile (index_below k) kvs @ (k, v) # dropWhile (index_below k) kvs
      else kvs @ [(k, v)])"

fun key_order :: "string list \<Rightarrow> bool" where
  "key_order (k # k' # ks) =
     ((if is_array_index k' then is_array_index k \<and> nat_of_digits k < nat_of_digits k' else True)
      \<and> key_order (k' # ks))"
| "key_order ks = True"

text \<open>
  The parser is a recursive descent over the text. Its first argument bounds the nesting
  depth and the number of elements it may read; \<open>JSON_parse\<close> supplies a bound that
  suffices for the length of the text, and \<open>None\<close> stands for the \<open>SyntaxError\<close>
  that \<open>JSON.parse\<close> throws.
\<close>

definition expect :: "string \<Rightarrow> string \<Rightarrow> string option" where
  "expect w s = (if take (length w) s = w then Some (drop (length w) s) else None)"

fun parse_value :: "nat \<Rightarrow> string \<Rightarrow> (json \<times> string) option"
  and parse_elements :: "nat \<Rightarrow> string \<Rightarrow> (json list \<times> string) option"
  and parse_members :: "nat \<Rightarrow> string \<Rightarrow> ((string \<times> json) list \<times> string) option"
where
  "parse_value 0 s = None"
| "parse_value (Suc n) s =
     (case skip_ws s of
        [] \<Rightarrow> None
      | c # cs \<Rightarrow>
         if c = CHR ''n'' then map_option (Pair JNull) (expect ''ull'' cs)
         else if c = CHR ''t'' then map_option (Pair (JBool True)) (expect ''rue'' cs)
         else if c = CHR ''f'' then map_option (Pair (JBool False)) (expect ''alse'' cs)
         else if c = CHR 0x22 then map_option (\<lambda>(str, r). (JStr str, r)) (parse_chars cs)
         else if c = CHR ''['' then
           (case skip_ws cs of
              [] \<Rightarrow> None
            | d # ds \<Rightarrow>
               if d = CHR '']'' then Some (JArr [], ds)
               else map_option (\<lambda>(vs, r). (JArr vs, r)) (parse_elements n cs))
         else if c = CHR ''{'' then
           (case skip_ws cs of
              [] \<Rightarrow> None
            | d # ds \<Rightarrow>
               if d = CHR ''}'' then Some (JObj [], ds)
               else map_option (\<lambda>(kvs, r). (JObj (foldl (\<lambda>acc (k, v). obj_put acc k v) [] kvs), r))
                      (parse_members n cs))
         else map_option (\<lambda>((m, k), r). (JNum m k, r)) (parse_num (c # cs)))"
| "parse_elements 0 s = None"
| "parse_elements (Suc n) s =
     (case parse_value n s of
        None \<Rightarrow> None
      | Some (v, r) \<Rightarrow>
         (case skip_ws r of
            [] \<Rightarrow> None
          | c # r1 \<Rightarrow>
             if c = CHR '','' then map_option (\<lambda>(vs, r2). (v # vs, r2)) (parse_elements n r1)
             else if c = CHR '']'' then Some ([v], r1)
             else None))"
| "parse_members 0 s = None"
| "parse_members (Suc n) s =
     (case skip_ws s of
        [] \<Rightarrow> None
      | q # s1 \<Rightarrow>
         if q \<noteq> CHR 0x22 then None
         else
           (case parse_chars s1 of
              None \<Rightarrow> None
            | Some (k, s2) \<Rightarrow>
               (case skip_ws s2 of
                  [] \<Rightarrow> None
                | c # s3 \<Rightarrow>
                   if c \<noteq> CHR '':'' then None
                   else
                     (case parse_value n s3 of
                        None \<Rightarrow> None
                      | Some (v, r) \<Rightarrow>
                         (case skip_ws r of
                            [] \<Rightarrow> None
                          | d # r1 \<Rightarrow>
                             if d = CHR '','' then
                               map_option (\<lambda>(kvs, r2). ((k, v) # kvs, r2)) (parse_members n r1)
                             else if d = CHR ''}'' then Some ([(k, v)], r1)
                             else None)))))"

definition JSON_parse :: "string \<Rightarrow> json option" where
  "JSON_parse s =
     (case parse_value (Suc (Suc (2 * length s))) s of
        None \<Rightarrow> None
      | Some (v, r) \<Rightarrow> if skip_ws r = [] then Some v else None)"



text \<open>
  \<open>wf_json\<close> holds of the terms that represent a value of the JavaScript heap: numbers
  are normalised, and the keys of an object are distinct and in enumeration order.
  \<open>need\<close> measures the bound that the parser needs to read a value back.
\<close>

definition wf_num :: "int \<Rightarrow> nat \<Rightarrow> bool" where
  "wf_num m k = (k = 0 \<or> m mod 10 \<noteq> 0)"

fun need :: "json \<Rightarrow> nat"
  and need_elems :: "json list \<Rightarrow> nat"
  and need_members :: "(string \<times> json) list \<Rightarrow> nat"
where
  "need (JArr vs) = Suc (need_elems vs)"
| "need (JObj kvs) = Suc (need_members kvs)"
| "need v = 1"
| "need_elems [] = 0"
| "need_elems (v # vs) = Suc (need v + need_elems vs)"
| "need_members [] = 0"
| "need_members ((k, v) # kvs) = Suc (need v + need_members kvs)"

fun wf_json :: "json \<Rightarrow> bool"
  and wf_elems :: "json list \<Rightarrow> bool"
  and wf_members :: "(string \<times> json) list \<Rightarrow> bool"
where
  "wf_json (JNum m k) = wf_num m k"
| "wf_json (JArr vs) = wf_elems vs"
| "wf_json (JObj kvs) = (distinct (map fst kvs) \<and> key_order (map fst kvs) \<and> wf_members kvs)"
| "wf_json v = True"
| "wf_elems [] = True"
| "wf_elems (v # vs) = (wf_json v \<and> wf_elems vs)"
| "wf_members [] = True"
| "wf_members ((k, v) # kvs) = (wf_json v \<and> wf_members kvs)"

definition follow_ok :: "string \<Rightarrow> bool" where
  "follow_ok r = (case r of [] \<Rightarrow> True
     | c # _ \<Rightarrow> \<not> is_digit c \<and> c \<noteq> CHR ''.'' \<and> c \<noteq> CHR ''e'' \<and> c \<noteq> CHR ''E'')"


section \<open>JavaScript operations on parsed values\<close>

text \<open>
  The code reads parsed data with property access, indexing, truthiness tests and
  comparisons, at type \<open>any\<close>. These are the operations of the language on JSON values.
  An absent property is \<open>None\<close> (\<open>undefined\<close>). \<open>Unmodelled\<close> marks a conversion of a
  string or an object to a number, which the model does not determine.
\<close>

datatype error = SyntaxError | TypeError | InvalidNoteFormat | NotAnArray | Unmodelled

definition truthy :: "json \<Rightarrow> bool" where
  "truthy v = (case v of JNull \<Rightarrow> False | JBool b \<Rightarrow> b | JNum m k \<Rightarrow> m \<noteq> 0
     | JStr s \<Rightarrow> s \<noteq> [] | JArr _ \<Rightarrow> True | JObj _ \<Rightarrow> True)"

definition truthy_opt :: "json option \<Rightarrow> bool" where
  "truthy_opt u = (case u of None \<Rightarrow> False | Some v \<Rightarrow> truthy v)"

definition js_or :: "json option \<Rightarrow> json \<Rightarrow> json" where
  "js_or u d = (case u of None \<Rightarrow> d | Some v \<Rightarrow> if truthy v then v else d)"

definition is_cont :: "char \<Rightarrow> bool" where
  "is_cont c = (0x80 \<le> (of_char c :: nat) \<and> (of_char c :: nat) < 0xC0)"

function code_points :: "string \<Rightarrow> string list" where
  "code_points [] = []"
| "code_points (c # cs) = (c # takeWhile is_cont cs) # code_points (dropWhile is_cont cs)"
  by pat_completeness auto

termination code_points
  by (relation "measure length") (simp_all add: less_Suc_eq_le length_dropWhile_le)

definition code_point :: "string \<Rightarrow> nat" where
  "code_point bs = (case map of_char bs of
       [a] \<Rightarrow> a
     | [a, b] \<Rightarrow> (a mod 32) * 64 + b mod 64
     | [a, b, c] \<Rightarrow> ((a mod 16) * 64 + b mod 64) * 64 + c mod 64
     | [a, b, c, d] \<Rightarrow> (((a mod 8) * 64 + b mod 64) * 64 + c mod 64) * 64 + d mod 64
     | _ \<Rightarrow> 0xFFFD)"

definition code_units :: "string \<Rightarrow> string list" where
  "code_units s =
     concat (map (\<lambda>bs. let n = code_point bs in
                    if n < 0x10000 then [bs]
                    else [utf8 (0xD800 + (n - 0x10000) div 1024),
                          utf8 (0xDC00 + (n - 0x10000) mod 1024)])
               (code_points s))"

definition property :: "json \<Rightarrow> string \<Rightarrow> json option" where
  "property v k = (case v of
       JObj kvs \<Rightarrow> map_of kvs k
     | JArr xs \<Rightarrow> if k = ''length'' then Some (JInt (int (length xs))) else None
     | JStr s \<Rightarrow> if k = ''length'' then Some (JInt (int (length (code_units s)))) else None
     | _ \<Rightarrow> None)"

definition index :: "json \<Rightarrow> nat \<Rightarrow> json option" where
  "index v i = (case v of
       JArr xs \<Rightarrow> if i < length xs then Some (xs ! i) else None
     | JStr s \<Rightarrow> if i < length (code_units s) then Some (JStr (code_units s ! i)) else None
     | JObj kvs \<Rightarrow> map_of kvs (show_nat i)
     | _ \<Rightarrow> None)"

definition js_lt :: "json option \<Rightarrow> int \<Rightarrow> error + bool" where
  "js_lt u n = (case u of
       None \<Rightarrow> Inr False
     | Some (JNum m k) \<Rightarrow> Inr (m < n * 10 ^ k)
     | Some JNull \<Rightarrow> Inr (0 < n)
     | Some (JBool b) \<Rightarrow> Inr ((if b then 1 else 0) < n)
     | Some _ \<Rightarrow> Inl Unmodelled)"

definition loop_bound :: "json option \<Rightarrow> error + nat" where
  "loop_bound u = (case u of
       None \<Rightarrow> Inr 0
     | Some (JNum m k) \<Rightarrow> Inr (nat ((m + 10 ^ k - 1) div 10 ^ k))
     | Some JNull \<Rightarrow> Inr 0
     | Some (JBool b) \<Rightarrow> Inr (if b then 1 else 0)
     | Some _ \<Rightarrow> Inl Unmodelled)"

section \<open>The renderer \<open>drawOnCanvas\<close>\<close>

text \<open>
  \<open>drawOnCanvas\<close> is modelled by the sequence of calls it makes on the 2D context,
  together with the exceptions that its \<open>catch\<close> clause logs. An exception inside the
  loop over the strokes ends the rendering: the calls made so far stay, the reset of the
  compositing mode that follows the loop is not reached.
\<close>

datatype cmd =
    ClearRect int int int int
  | SetGlobalCompositeOperation string
  | SetStrokeStyle "json option"
  | SetLineWidth "json option"
  | SetLineCap string
  | SetLineJoin string
  | BeginPath
  | MoveTo "json option" "json option"
  | LineTo "json option" "json option"
  | Stroke

definition point_args :: "json \<Rightarrow> nat \<Rightarrow> error + (json option \<times> json option)" where
  "point_args pts i = (case index pts i of
       None \<Rightarrow> Inl TypeError
     | Some JNull \<Rightarrow> Inl TypeError
     | Some p \<Rightarrow> Inr (property p ''x'', property p ''y''))"

fun lineTo_loop :: "json \<Rightarrow> nat list \<Rightarrow> cmd list \<times> error option" where
  "lineTo_loop pts [] = ([], None)"
| "lineTo_loop pts (i # is) =
     (case point_args pts i of
        Inl e \<Rightarrow> ([], Some e)
      | Inr (x, y) \<Rightarrow> (case lineTo_loop pts is of (cs, e) \<Rightarrow> (LineTo x y # cs, e)))"

definition style_cmds :: "json \<Rightarrow> cmd list" where
  "style_cmds line =
     (let tool = js_or (property line ''tool'') (JStr ''pen'') in
      (if tool = JStr ''pen''
       then [SetGlobalCompositeOperation ''source-over'', SetStrokeStyle (property line ''color'')]
       else [SetGlobalCompositeOperation ''destination-out'',
             SetStrokeStyle (Some (JStr ''rgba(0,0,0,1)''))])
      @ [SetLineWidth (property line ''thickness''), SetLineCap ''round'', SetLineJoin ''round'',
         BeginPath])"

definition path_cmds :: "json \<Rightarrow> cmd list \<times> error option" where
  "path_cmds pts =
     (case point_args pts 0 of
        Inl e \<Rightarrow> ([], Some e)
      | Inr (x, y) \<Rightarrow>
         (case loop_bound (property pts ''length'') of
            Inl e \<Rightarrow> ([MoveTo x y], Some e)
          | Inr n \<Rightarrow>
             (case lineTo_loop pts [1..<n] of
                (cs, Some e) \<Rightarrow> (MoveTo x y # cs, Some e)
              | (cs, None) \<Rightarrow> (MoveTo x y # cs @ [Stroke], None))))"

definition line_cmds :: "json \<Rightarrow> cmd list \<times> error option" where
  "line_cmds line =
     (if \<not> truthy line then ([], None)
      else case property line ''points'' of
        None \<Rightarrow> ([], None)
      | Some pts \<Rightarrow>
         if \<not> truthy pts then ([], None)
         else (case js_lt (property pts ''length'') 2 of
            Inl e \<Rightarrow> ([], Some e)
          | Inr True \<Rightarrow> ([], None)
          | Inr False \<Rightarrow>
             (case path_cmds pts of (cs, e) \<Rightarrow> (style_cmds line @ cs, e))))"

fun forEach_line :: "json list \<Rightarrow> cmd list \<times> error option" where
  "forEach_line [] = ([], None)"
| "forEach_line (line # rest) =
     (case line_cmds line of
        (cs, Some e) \<Rightarrow> (cs, Some e)
      | (cs, None) \<Rightarrow> (case forEach_line rest of (cs', e) \<Rightarrow> (cs @ cs', e)))"

definition drawOnCanvas :: "bool \<Rightarrow> int \<Rightarrow> int \<Rightarrow> string option \<Rightarrow> cmd list \<times> error list" where
  "drawOnCanvas has_ctx width height drawingData =
     (if \<not> has_ctx then ([], [])
      else let clear = [ClearRect 0 0 width height] in
        case drawingData of
          None \<Rightarrow> (clear, [])
        | Some d \<Rightarrow>
           if d = [] then (clear, [])
           else (case JSON_parse d of
              None \<Rightarrow> (clear, [SyntaxError])
            | Some (JArr ls) \<Rightarrow>
               (case forEach_line ls of
                  (cs, Some e) \<Rightarrow> (clear @ cs, [e])
                | (cs, None) \<Rightarrow> (clear @ cs @ [SetGlobalCompositeOperation ''source-over''], []))
            | Some _ \<Rightarrow> (clear, [])))"

subsection \<open>A canvas surface\<close>

text \<open>
  The surface interprets the calls: it keeps the compositing mode, the stroke style, the
  line width, the current path and a colour for each pixel (\<open>None\<close> is transparent).
  Which pixels a stroked path covers is decided by the canvas and is the parameter
  \<open>cover\<close>. A call whose argument is not a number is ignored, as the canvas ignores a
  non-finite argument.
\<close>

type_synonym decimal = "int \<times> nat"

record surface =
  composite :: string
  style :: string
  lineWidth :: decimal
  path :: "(decimal \<times> decimal) list"
  pixels :: "int \<times> int \<Rightarrow> string option"

type_synonym coverage = "(decimal \<times> decimal) list \<Rightarrow> decimal \<Rightarrow> int \<times> int \<Rightarrow> bool"

definition exec :: "coverage \<Rightarrow> surface \<Rightarrow> cmd \<Rightarrow> surface" where
  "exec cover s c = (case c of
       ClearRect x y w h \<Rightarrow>
         s\<lparr>pixels := (\<lambda>(px, py). if x \<le> px \<and> px < x + w \<and> y \<le> py \<and> py < y + h then None
                                  else pixels s (px, py))\<rparr>
     | SetGlobalCompositeOperation g \<Rightarrow> s\<lparr>composite := g\<rparr>
     | SetStrokeStyle v \<Rightarrow> (case v of Some (JStr col) \<Rightarrow> s\<lparr>style := col\<rparr> | _ \<Rightarrow> s)
     | SetLineWidth v \<Rightarrow> (case v of Some (JNum m k) \<Rightarrow> if 0 < m then s\<lparr>lineWidth := (m, k)\<rparr> else s | _ \<Rightarrow> s)
     | SetLineCap _ \<Rightarrow> s
     | SetLineJoin _ \<Rightarrow> s
     | BeginPath \<Rightarrow> s\<lparr>path := []\<rparr>
     | MoveTo x y \<Rightarrow> (case (x, y) of
           (Some (JNum a j), Some (JNum b k)) \<Rightarrow> s\<lparr>path := path s @ [((a, j), (b, k))]\<rparr>
         | _ \<Rightarrow> s)
     | LineTo x y \<Rightarrow> (case (x, y) of
           (Some (JNum a j), Some (JNum b k)) \<Rightarrow> s\<lparr>path := path s @ [((a, j), (b, k))]\<rparr>
         | _ \<Rightarrow> s)
     | Stroke \<Rightarrow>
         s\<lparr>pixels := (\<lambda>p. if cover (path s) (lineWidth s) p
                          then (if composite s = ''destination-out'' then None
                                else if composite s = ''source-over'' then Some (style s)
                                else pixels s p)
                          else pixels s p)\<rparr>)"

definition paint :: "coverage \<Rightarrow> surface \<Rightarrow> cmd list \<Rightarrow> surface" where
  "paint cover s cs = foldl (exec cover) s cs"

section \<open>The page component \<open>EditablePage\<close>\<close>

text \<open>
  The component state is the stroke list \<open>lines\<close> and the flag \<open>isDrawing\<close>; the props
  are the page index, the page's drawing data, the tool, the pen colour and thickness. The
  event handlers return the new component state, \<open>Inl\<close> when the state updater throws.
  \<open>stopDrawing\<close> also returns the call to \<open>onDrawingChange\<close>, if it makes one.
\<close>

datatype DrawingTool = pen | eraser

definition tool_name :: "DrawingTool \<Rightarrow> string" where
  "tool_name t = (case t of pen \<Rightarrow> ''pen'' | eraser \<Rightarrow> ''eraser'')"

record EditablePage =
  pageIndex' :: nat
  drawingData' :: string
  drawingTool' :: "DrawingTool option"
  penColor' :: string
  penThickness' :: int
  isDrawing :: bool
  lines :: json

definition deserialize :: "string \<Rightarrow> json" where
  "deserialize drawingData =
     (if drawingData \<noteq> []
      then (case JSON_parse drawingData of Some v \<Rightarrow> v | None \<Rightarrow> JArr [])
      else JArr [])"

definition setDrawingData :: "string \<Rightarrow> EditablePage \<Rightarrow> EditablePage" where
  "setDrawingData d p = p\<lparr>drawingData' := d, lines := deserialize d\<rparr>"

definition spread :: "json \<Rightarrow> error + json list" where
  "spread v = (case v of JArr xs \<Rightarrow> Inr xs | JStr s \<Rightarrow> Inr (map JStr (code_points s))
     | _ \<Rightarrow> Inl TypeError)"

definition getRelativeCoords :: "int \<times> int \<Rightarrow> int \<times> int \<Rightarrow> int \<times> int" where
  "getRelativeCoords rect client = (fst client - fst rect, snd client - snd rect)"

definition point_json :: "int \<times> int \<Rightarrow> json" where
  "point_json p = JObj [(''x'', JInt (fst p)), (''y'', JInt (snd p))]"

definition stroke_json :: "DrawingTool \<Rightarrow> (int \<times> int) list \<Rightarrow> string \<Rightarrow> int \<Rightarrow> json" where
  "stroke_json t pts col th =
     JObj [(''tool'', JStr (tool_name t)),
           (''points'', JArr (map point_json pts)),
           (''color'', JStr col),
           (''thickness'', JInt th)]"

definition startDrawing :: "int \<times> int \<Rightarrow> int \<times> int \<Rightarrow> EditablePage \<Rightarrow> error + EditablePage" where
  "startDrawing rect client p =
     (case drawingTool' p of
        None \<Rightarrow> Inr p
      | Some t \<Rightarrow>
         let newLine = stroke_json t [getRelativeCoords rect client] (penColor' p) (penThickness' p)
         in (case spread (lines p) of
               Inl e \<Rightarrow> Inl e
             | Inr prevLines \<Rightarrow> Inr (p\<lparr>isDrawing := True, lines := JArr (prevLines @ [newLine])\<rparr>)))"

definition push_point :: "json \<Rightarrow> json \<Rightarrow> error + json" where
  "push_point line pt = (case line of
       JNull \<Rightarrow> Inl TypeError
     | JObj kvs \<Rightarrow> (case map_of kvs ''points'' of
          Some (JArr ps) \<Rightarrow> Inr (JObj (obj_put kvs ''points'' (JArr (ps @ [pt]))))
        | _ \<Rightarrow> Inl TypeError)
     | _ \<Rightarrow> Inl TypeError)"

definition draw :: "int \<times> int \<Rightarrow> int \<times> int \<Rightarrow> EditablePage \<Rightarrow> error + EditablePage" where
  "draw rect client p =
     (if \<not> isDrawing p \<or> drawingTool' p = None then Inr p
      else case spread (lines p) of
        Inl e \<Rightarrow> Inl e
      | Inr newLines \<Rightarrow>
         if newLines = [] then Inr (p\<lparr>lines := JArr newLines\<rparr>)
         else (case push_point (last newLines) (point_json (getRelativeCoords rect client)) of
            Inl e \<Rightarrow> Inl e
          | Inr l \<Rightarrow> Inr (p\<lparr>lines := JArr (butlast newLines @ [l])\<rparr>)))"

definition stopDrawing :: "EditablePage \<Rightarrow> EditablePage \<times> (nat \<times> string) option" where
  "stopDrawing p =
     (if \<not> isDrawing p then (p, None)
      else let newDrawingData = stringify (lines p) in
        (p\<lparr>isDrawing := False\<rparr>,
         if drawingData' p \<noteq> newDrawingData then Some (pageIndex' p, newDrawingData) else None))"


section \<open>Notes and the application state\<close>

text \<open>
  A page array is a list of optional strings: \<open>None\<close> is a hole, which an assignment
  beyond the end of a JavaScript array leaves behind (\<open>js_store\<close>). The clock is a
  parameter: \<open>now\<close> is \<open>Date.now()\<close> and \<open>isoString\<close> is
  \<open>new Date().toISOString()\<close>.
\<close>

record note_styles =
  fontSize :: string
  fontFamily :: string
  fontWeight :: string

record SermonNote =
  id' :: string
  title :: string
  date :: string
  serviceType :: string
  passage :: string
  content :: "string option list"
  styles :: note_styles
  drawingData :: "string option list"

definition SERVICE_TYPES :: "string list" where
  "SERVICE_TYPES =
    [[CHR 0xEC, CHR 0xA3, CHR 0xBC, CHR 0xEC, CHR 0x9D, CHR 0xBC, CHR 0xEC, CHR 0x98, CHR 0xA4,
      CHR 0xEC, CHR 0xA0, CHR 0x84, CHR 0xEC, CHR 0x98, CHR 0x88, CHR 0xEB, CHR 0xB0, CHR 0xB0],
     [CHR 0xEC, CHR 0xA3, CHR 0xBC, CHR 0xEC, CHR 0x9D, CHR 0xBC, CHR 0xEC, CHR 0x98, CHR 0xA4,
      CHR 0xED, CHR 0x9B, CHR 0x84, CHR 0xEC, CHR 0x98, CHR 0x88, CHR 0xEB, CHR 0xB0, CHR 0xB0],
     [CHR 0xEC, CHR 0x88, CHR 0x98, CHR 0xEC, CHR 0x9A, CHR 0x94, CHR 0xEC, CHR 0x9D, CHR 0xBC,
      CHR 0xEC, CHR 0xA0, CHR 0x80, CHR 0xEB, CHR 0x85, CHR 0x81, CHR 0xEC, CHR 0x98, CHR 0x88,
      CHR 0xEB, CHR 0xB0, CHR 0xB0],
     [CHR 0xEC, CHR 0x83, CHR 0x88, CHR 0xEB, CHR 0xB2, CHR 0xBD, CHR 0xEA, CHR 0xB8, CHR 0xB0,
      CHR 0xEB, CHR 0x8F, CHR 0x84],
     [CHR 0xED, CHR 0x8A, CHR 0xB9, CHR 0xEB, CHR 0xB3, CHR 0x84, CHR 0xEC, CHR 0x84, CHR 0xA4,
      CHR 0xEA, CHR 0xB5, CHR 0x90]]"

definition createNewNote :: "nat \<Rightarrow> string \<Rightarrow> SermonNote" where
  "createNewNote now isoString =
     \<lparr> id' = show_nat now,
       title = [],
       date = takeWhile (\<lambda>c. c \<noteq> CHR ''T'') isoString,
       serviceType = hd SERVICE_TYPES,
       passage = [],
       content = [Some []],
       styles = \<lparr> fontSize = ''16px'', fontFamily = ''Noto Sans KR'', fontWeight = ''400'' \<rparr>,
       drawingData = [Some []] \<rparr>"

record 'n App =
  notes' :: "'n list"
  currentNote :: "'n option"
  activePageIndex :: nat
  drawingTool :: "DrawingTool option"
  isInitialLoad :: bool

definition js_store :: "'a option list \<Rightarrow> nat \<Rightarrow> 'a \<Rightarrow> 'a option list" where
  "js_store xs i v =
     (if i < length xs then xs[i := Some v]
      else xs @ replicate (i - length xs) None @ [Some v])"

definition str_concat :: "string \<Rightarrow> string option \<Rightarrow> string" where
  "str_concat s u = (case u of Some t \<Rightarrow> s @ t | None \<Rightarrow> s @ ''undefined'')"

definition replace_note :: "SermonNote \<Rightarrow> SermonNote \<Rightarrow> SermonNote list \<Rightarrow> SermonNote list" where
  "replace_note cur updatedNote ns = map (\<lambda>n. if id' n = id' cur then updatedNote else n) ns"

definition handleContentChange :: "nat \<Rightarrow> string \<Rightarrow> SermonNote App \<Rightarrow> SermonNote App" where
  "handleContentChange pageIndex value s =
     (case currentNote s of
        None \<Rightarrow> s
      | Some cur \<Rightarrow>
         let newContent = js_store (content cur) pageIndex value;
             updatedNote = cur\<lparr>content := newContent\<rparr>
         in s\<lparr>currentNote := Some updatedNote, notes' := replace_note cur updatedNote (notes' s)\<rparr>)"

definition handleDrawingChange :: "nat \<Rightarrow> string \<Rightarrow> SermonNote App \<Rightarrow> SermonNote App" where
  "handleDrawingChange i value s =
     (case currentNote s of
        None \<Rightarrow> s
      | Some cur \<Rightarrow>
         let updatedDrawingData = js_store (drawingData cur) i value;
             updatedNote = cur\<lparr>drawingData := updatedDrawingData\<rparr>
         in s\<lparr>currentNote := Some updatedNote, notes' := replace_note cur updatedNote (notes' s)\<rparr>)"

definition clearDrawing :: "bool \<Rightarrow> SermonNote App \<Rightarrow> SermonNote App" where
  "clearDrawing confirmed s =
     (case currentNote s of
        None \<Rightarrow> s
      | Some cur \<Rightarrow>
         if confirmed then
           let updatedDrawingData = js_store (drawingData cur) (activePageIndex s) [];
               updatedNote = cur\<lparr>drawingData := updatedDrawingData\<rparr>
           in s\<lparr>currentNote := Some updatedNote, notes' := replace_note cur updatedNote (notes' s)\<rparr>
         else s)"

definition handleNewNote :: "nat \<Rightarrow> string \<Rightarrow> SermonNote App \<Rightarrow> SermonNote App" where
  "handleNewNote now isoString s =
     (let newNote = createNewNote now isoString
      in s\<lparr>notes' := newNote # notes' s, currentNote := Some newNote, drawingTool := None,
            activePageIndex := 0\<rparr>)"

definition handleSelectNote :: "string \<Rightarrow> SermonNote App \<Rightarrow> SermonNote App" where
  "handleSelectNote noteId s =
     (case find (\<lambda>n. id' n = noteId) (notes' s) of
        Some n \<Rightarrow> s\<lparr>currentNote := Some n, activePageIndex := 0\<rparr>
      | None \<Rightarrow> s)"

definition stopDrawing_App :: "EditablePage \<Rightarrow> SermonNote App \<Rightarrow> EditablePage \<times> SermonNote App" where
  "stopDrawing_App p s =
     (case stopDrawing p of
        (p', None) \<Rightarrow> (p', s)
      | (p', Some (i, d)) \<Rightarrow> (p', handleDrawingChange i d s))"

section \<open>Automatic pagination\<close>

text \<open>
  The editor of the active page is a tree of elements and text nodes. The split point is a
  path of child indices to the start container and an offset into it.
  \<open>extractContents\<close> is \<open>Range.extractContents\<close> for the range from the split point
  to the end of the editor: it returns the nodes that stay and the extracted fragment, and
  a partially selected element is cloned into the fragment. \<open>trims_to_empty s\<close> is
  \<open>!s.trim()\<close>.
\<close>

datatype node = Text string | Element string "(string \<times> string) list" "node list"

fun escape_text :: "string \<Rightarrow> string" where
  "escape_text [] = []"
| "escape_text (c # cs) =
     (if c = CHR ''&'' then ''&amp;'' @ escape_text cs
      else if c = CHR ''<'' then ''&lt;'' @ escape_text cs
      else if c = CHR ''>'' then ''&gt;'' @ escape_text cs
      else if c = CHR 0xC2 then
        (case cs of
           [] \<Rightarrow> [c]
         | d # ds \<Rightarrow> if d = CHR 0xA0 then ''&nbsp;'' @ escape_text ds else c # escape_text cs)
      else c # escape_text cs)"

fun escape_attr :: "string \<Rightarrow> string" where
  "escape_attr [] = []"
| "escape_attr (c # cs) =
     (if c = CHR ''&'' then ''&amp;'' @ escape_attr cs
      else if c = CHR 0x22 then ''&quot;'' @ escape_attr cs
      else if c = CHR 0xC2 then
        (case cs of
           [] \<Rightarrow> [c]
         | d # ds \<Rightarrow> if d = CHR 0xA0 then ''&nbsp;'' @ escape_attr ds else c # escape_attr cs)
      else c # escape_attr cs)"

definition void_elements :: "string list" where
  "void_elements = [''area'', ''base'', ''basefont'', ''bgsound'', ''br'', ''col'', ''embed'',
     ''frame'', ''hr'', ''img'', ''input'', ''keygen'', ''link'', ''meta'', ''param'', ''source'',
     ''track'', ''wbr'']"

definition attrs_html :: "(string \<times> string) list \<Rightarrow> string" where
  "attrs_html as = concat (map (\<lambda>(k, v). CHR '' '' # k @ CHR ''='' # CHR 0x22 # escape_attr v @ [CHR 0x22]) as)"

fun outerHTML :: "node \<Rightarrow> string"
  and innerHTML :: "node list \<Rightarrow> string"
where
  "outerHTML (Text s) = escape_text s"
| "outerHTML (Element tag as children) =
     CHR ''<'' # tag @ attrs_html as @ CHR ''>'' #
       (if tag \<in> set void_elements then []
        else innerHTML children @ CHR ''<'' # CHR ''/'' # tag @ ''>'')"
| "innerHTML [] = []"
| "innerHTML (n # ns) = outerHTML n @ innerHTML ns"

fun textContent :: "node \<Rightarrow> string"
  and textContents :: "node list \<Rightarrow> string"
where
  "textContent (Text s) = s"
| "textContent (Element tag as children) = textContents children"
| "textContents [] = []"
| "textContents (n # ns) = textContent n @ textContents ns"

fun extractContents :: "node list \<Rightarrow> nat list \<Rightarrow> nat \<Rightarrow> node list \<times> node list" where
  "extractContents ns [] off = (take off ns, drop off ns)"
| "extractContents ns (i # p) off =
     (if i < length ns then
        (case ns ! i of
           Text s \<Rightarrow>
             if p = [] then (take i ns @ [Text (take off s)], Text (drop off s) # drop (Suc i) ns)
             else (ns, [])
         | Element tag as children \<Rightarrow>
             (case extractContents children p off of
                (kept, moved) \<Rightarrow>
                  (take i ns @ [Element tag as kept], Element tag as moved # drop (Suc i) ns)))
      else (ns, []))"

definition ws3 :: "char \<Rightarrow> char \<Rightarrow> char \<Rightarrow> bool" where
  "ws3 a b c =
     ((a = CHR 0xE1 \<and> b = CHR 0x9A \<and> c = CHR 0x80)
      \<or> (a = CHR 0xE2 \<and> b = CHR 0x80 \<and> (0x80 \<le> (of_char c :: nat) \<and> (of_char c :: nat) \<le> 0x8A))
      \<or> (a = CHR 0xE2 \<and> b = CHR 0x80 \<and> (c = CHR 0xA8 \<or> c = CHR 0xA9 \<or> c = CHR 0xAF))
      \<or> (a = CHR 0xE2 \<and> b = CHR 0x81 \<and> c = CHR 0x9F)
      \<or> (a = CHR 0xE3 \<and> b = CHR 0x80 \<and> c = CHR 0x80)
      \<or> (a = CHR 0xEF \<and> b = CHR 0xBB \<and> c = CHR 0xBF))"

fun trims_to_empty :: "string \<Rightarrow> bool" where
  "trims_to_empty [] = True"
| "trims_to_empty (c # cs) =
     (if 9 \<le> (of_char c :: nat) \<and> (of_char c :: nat) \<le> 13 \<or> c = CHR 0x20 then trims_to_empty cs
      else (case cs of
              [] \<Rightarrow> False
            | d # ds \<Rightarrow>
               if c = CHR 0xC2 \<and> d = CHR 0xA0 then trims_to_empty ds
               else (case ds of
                       [] \<Rightarrow> False
                     | e # es \<Rightarrow> if ws3 c d e then trims_to_empty es else False)))"

record Editor =
  childNodes :: "node list"
  scrollHeight :: int
  clientHeight :: int

definition split_pages :: "nat \<Rightarrow> string \<Rightarrow> string \<Rightarrow> SermonNote \<Rightarrow> SermonNote" where
  "split_pages a currentPageHtml overflowingHtml prevNote =
     (let newContent = js_store (content prevNote) a currentPageHtml;
          newDrawingData = drawingData prevNote
      in if a + 1 < length newContent
         then prevNote\<lparr>content := newContent[a + 1 := Some (str_concat overflowingHtml (newContent ! (a + 1)))],
                        drawingData := newDrawingData\<rparr>
         else prevNote\<lparr>content := newContent @ [Some overflowingHtml],
                        drawingData := newDrawingData @ [Some []]\<rparr>)"

definition autopaginate ::
  "Editor option \<Rightarrow> (nat list \<times> nat) option \<Rightarrow> SermonNote App \<Rightarrow> SermonNote App" where
  "autopaginate editorRef splitRange s =
     (case currentNote s of
        None \<Rightarrow> s
      | Some cur \<Rightarrow>
         (case editorRef of
            None \<Rightarrow> s
          | Some editor \<Rightarrow>
             if scrollHeight editor \<le> clientHeight editor then s
             else (case splitRange of
                None \<Rightarrow> s
              | Some (container, off) \<Rightarrow>
                 (case extractContents (childNodes editor) container off of
                    (kept, fragment) \<Rightarrow>
                      let overflowingHtml = innerHTML fragment in
                      if trims_to_empty overflowingHtml then s
                      else let currentPageHtml = innerHTML kept in
                        s\<lparr>currentNote := Some (split_pages (activePageIndex s) currentPageHtml overflowingHtml cur),
                          activePageIndex := activePageIndex s + 1\<rparr>))))"

section \<open>Migration, import and load\<close>

text \<open>
  Imported and stored notes are parsed JSON, typed \<open>any\<close> in the source, so the
  migrations work on \<open>json\<close> values and the application state holds \<open>json\<close> notes
  here. The file is a module and runs in strict mode: an assignment to a property of a
  primitive value throws a \<open>TypeError\<close>.
\<close>

definition slot_json :: "string option \<Rightarrow> json" where
  "slot_json u = (case u of None \<Rightarrow> JNull | Some t \<Rightarrow> JStr t)"

definition note_json :: "SermonNote \<Rightarrow> json" where
  "note_json n =
     JObj [(''id'', JStr (id' n)),
           (''title'', JStr (title n)),
           (''date'', JStr (date n)),
           (''serviceType'', JStr (serviceType n)),
           (''passage'', JStr (passage n)),
           (''content'', JArr (map slot_json (content n))),
           (''styles'', JObj [(''fontSize'', JStr (fontSize (styles n))),
                             (''fontFamily'', JStr (fontFamily (styles n))),
                             (''fontWeight'', JStr (fontWeight (styles n)))]),
           (''drawingData'', JArr (map slot_json (drawingData n)))]"

definition is_string :: "json option \<Rightarrow> bool" where
  "is_string u = (case u of Some (JStr _) \<Rightarrow> True | _ \<Rightarrow> False)"

definition wrap_legacy :: "(string \<times> json) list \<Rightarrow> (string \<times> json) list" where
  "wrap_legacy kvs =
     (if is_string (map_of kvs ''content'') \<or> \<not> truthy_opt (map_of kvs ''content'')
      then let kvs1 = obj_put kvs ''content'' (JArr [js_or (map_of kvs ''content'') (JStr [])])
           in obj_put kvs1 ''drawingData'' (JArr [js_or (map_of kvs1 ''drawingData'') (JStr [])])
      else kvs)"

definition migrate_import :: "json \<Rightarrow> error + json" where
  "migrate_import note = (case note of
       JNull \<Rightarrow> Inl TypeError
     | JBool _ \<Rightarrow> Inl TypeError
     | JNum _ _ \<Rightarrow> Inl TypeError
     | JStr _ \<Rightarrow> Inl TypeError
     | JArr xs \<Rightarrow> Inr (JArr xs)
     | JObj kvs \<Rightarrow> Inr (JObj (wrap_legacy kvs)))"

definition strict_eq :: "json option \<Rightarrow> json option \<Rightarrow> bool" where
  "strict_eq u v = (case (u, v) of
       (None, None) \<Rightarrow> True
     | (Some JNull, Some JNull) \<Rightarrow> True
     | (Some (JBool a), Some (JBool b)) \<Rightarrow> a = b
     | (Some (JNum a j), Some (JNum b k)) \<Rightarrow> a * 10 ^ k = b * 10 ^ j
     | (Some (JStr a), Some (JStr b)) \<Rightarrow> a = b
     | _ \<Rightarrow> False)"

definition opt_index :: "json option \<Rightarrow> nat \<Rightarrow> json option" where
  "opt_index u i = (case u of None \<Rightarrow> None | Some JNull \<Rightarrow> None | Some v \<Rightarrow> index v i)"

definition reconcile :: "(string \<times> json) list \<Rightarrow> error + (string \<times> json) list" where
  "reconcile kvs =
     (let d = map_of kvs ''drawingData'' in
      case map_of kvs ''content'' of
        None \<Rightarrow> Inl TypeError
      | Some JNull \<Rightarrow> Inl TypeError
      | Some c \<Rightarrow>
         if \<not> truthy_opt d \<or>
            \<not> strict_eq (case d of None \<Rightarrow> None | Some dv \<Rightarrow> property dv ''length'')
                         (property c ''length'')
         then (case loop_bound (property c ''length'') of
                 Inl e \<Rightarrow> Inl e
               | Inr n \<Rightarrow>
                  Inr (obj_put kvs ''drawingData''
                         (JArr (map (\<lambda>i. js_or (opt_index d i) (JStr [])) [0..<n]))))
         else Inr kvs)"

definition migrate_load :: "json \<Rightarrow> error + json" where
  "migrate_load note = (case note of
       JNull \<Rightarrow> Inl TypeError
     | JBool _ \<Rightarrow> Inl TypeError
     | JNum _ _ \<Rightarrow> Inl TypeError
     | JStr _ \<Rightarrow> Inl TypeError
     | JArr xs \<Rightarrow> Inr (JArr xs)
     | JObj kvs \<Rightarrow> (case reconcile (wrap_legacy kvs) of Inl e \<Rightarrow> Inl e | Inr kvs' \<Rightarrow> Inr (JObj kvs')))"

fun map_result :: "('a \<Rightarrow> error + 'b) \<Rightarrow> 'a list \<Rightarrow> error + 'b list" where
  "map_result f [] = Inr []"
| "map_result f (x # xs) =
     (case f x of
        Inl e \<Rightarrow> Inl e
      | Inr y \<Rightarrow> (case map_result f xs of Inl e \<Rightarrow> Inl e | Inr ys \<Rightarrow> Inr (y # ys)))"

definition in_op :: "string \<Rightarrow> json \<Rightarrow> error + bool" where
  "in_op k v = (case v of
       JObj kvs \<Rightarrow> Inr (k \<in> set (map fst kvs))
     | JArr xs \<Rightarrow> Inr (k = ''length'' \<or> k \<in> set (map show_nat [0..<length xs]))
     | _ \<Rightarrow> Inl TypeError)"

definition validate_first :: "json list \<Rightarrow> error + json list" where
  "validate_first importedNotes =
     (case importedNotes of
        [] \<Rightarrow> Inr importedNotes
      | first # _ \<Rightarrow>
         (case in_op ''id'' first of
            Inl e \<Rightarrow> Inl e
          | Inr False \<Rightarrow> Inl InvalidNoteFormat
          | Inr True \<Rightarrow>
             (case in_op ''title'' first of
                Inl e \<Rightarrow> Inl e
              | Inr False \<Rightarrow> Inl InvalidNoteFormat
              | Inr True \<Rightarrow> Inr importedNotes)))"

definition import_payload :: "string \<Rightarrow> error + json list" where
  "import_payload text =
     (case JSON_parse text of
        None \<Rightarrow> Inl SyntaxError
      | Some (JArr importedData) \<Rightarrow>
         (case map_result migrate_import importedData of
            Inl e \<Rightarrow> Inl e
          | Inr importedNotes \<Rightarrow> validate_first importedNotes)
      | Some _ \<Rightarrow> Inl NotAnArray)"

datatype alert = ImportedCount nat | InvalidFile

definition importNotes ::
  "nat \<Rightarrow> string \<Rightarrow> string option \<Rightarrow> json App \<Rightarrow> json App \<times> alert option" where
  "importNotes now isoString file s =
     (case file of
        None \<Rightarrow> (s, None)
      | Some text \<Rightarrow>
         (case import_payload text of
            Inl e \<Rightarrow> (s, Some InvalidFile)
          | Inr importedNotes \<Rightarrow>
             ((if importedNotes \<noteq> []
               then s\<lparr>notes' := importedNotes, currentNote := Some (hd importedNotes)\<rparr>
               else let newNote = note_json (createNewNote now isoString)
                    in s\<lparr>notes' := [newNote], currentNote := Some newNote\<rparr>)
              \<lparr>activePageIndex := 0\<rparr>,
              Some (ImportedCount (length importedNotes)))))"

definition fresh_App :: "nat \<Rightarrow> string \<Rightarrow> json App \<Rightarrow> json App" where
  "fresh_App now isoString s =
     (let newNote = note_json (createNewNote now isoString)
      in s\<lparr>notes' := [newNote], currentNote := Some newNote, isInitialLoad := False\<rparr>)"

definition load :: "nat \<Rightarrow> string \<Rightarrow> string option \<Rightarrow> json App \<Rightarrow> error + json App" where
  "load now isoString savedNotes s =
     (case savedNotes of
        None \<Rightarrow> Inr (fresh_App now isoString s)
      | Some text \<Rightarrow>
         if text = [] then Inr (fresh_App now isoString s)
         else (case JSON_parse text of
            None \<Rightarrow> Inr (fresh_App now isoString s)
          | Some (JArr xs) \<Rightarrow>
             (case map_result migrate_load xs of
                Inl Unmodelled \<Rightarrow> Inl Unmodelled
              | Inl _ \<Rightarrow> Inr (fresh_App now isoString s)
              | Inr parsedNotes \<Rightarrow>
                 Inr (s\<lparr>notes' := parsedNotes,
                        currentNote := (if parsedNotes \<noteq> [] then Some (hd parsedNotes)
                                        else Some (note_json (createNewNote now isoString))),
                        isInitialLoad := False\<rparr>))
          | Some _ \<Rightarrow> Inr (fresh_App now isoString s)))"

section \<open>The page invariant and example states\<close>

definition pages_aligned :: "SermonNote \<Rightarrow> bool" where
  "pages_aligned n = (length (content n) = length (drawingData n) \<and> 1 \<le> length (content n))"

definition pages_aligned_json :: "json \<Rightarrow> bool" where
  "pages_aligned_json n =
     (case (property n ''content'', property n ''drawingData'') of
        (Some (JArr cs), Some (JArr ds)) \<Rightarrow> length cs = length ds \<and> 1 \<le> length cs
      | _ \<Rightarrow> False)"

definition demo_note :: SermonNote where
  "demo_note = \<lparr> id' = ''1'', title = ''t'', date = ''2024-01-07'', serviceType = hd SERVICE_TYPES,
      passage = [], content = [Some ''a'', Some ''b''],
      styles = \<lparr> fontSize = ''16px'', fontFamily = ''Noto Sans KR'', fontWeight = ''400'' \<rparr>,
      drawingData = [Some [], Some ''[]''] \<rparr>"

definition demo_App :: "SermonNote App" where
  "demo_App = \<lparr> notes' = [demo_note], currentNote = Some demo_note, activePageIndex = 1,
      drawingTool = Some pen, isInitialLoad = False \<rparr>"

definition demo_page :: EditablePage where
  "demo_page = \<lparr> pageIndex' = 1, drawingData' = ''[]'', drawingTool' = Some pen,
      penColor' = ''#dc3545'', penThickness' = 5, isDrawing = True, lines = JArr [] \<rparr>"

definition demo_surface :: surface where
  "demo_surface = \<lparr> composite = ''source-over'', style = ''#000000'', lineWidth = (1, 0), path = [],
      pixels = (\<lambda>_. Some ''#28a745'') \<rparr>"

definition pixel_point :: "int \<times> int \<Rightarrow> decimal \<times> decimal" where
  "pixel_point p = ((fst p, 0), (snd p, 0))"

definition vertex_cover :: coverage where
  "vertex_cover pts w p = (pixel_point p \<in> set pts)"

definition demo_drawing :: string where
  \<open>demo_drawing = ''[{"tool":"pen","points":[{"x":1,"y":1},{"x":5,"y":5}],"color":"#dc3545","thickness":5},{"tool":"eraser","points":[{"x":1,"y":1},{"x":5,"y":5}],"color":"#dc3545","thickness":10}]''\<close>

definition demo_strokes :: "json list" where
  "demo_strokes =
     [JObj [(''tool'', JStr ''pen''),
            (''points'', JArr [JObj [(''x'', JNum 105 1), (''y'', JInt 20)],
                              JObj [(''x'', JInt 11), (''y'', JNum 2225 2)],
                              JObj [(''x'', JNum (- 125) 3), (''y'', JInt 25)]]),
            (''color'', JStr ''#dc3545''), (''thickness'', JInt 5)],
      JObj [(''tool'', JStr ''eraser''), (''points'', JArr [JObj [(''x'', JInt 3), (''y'', JInt 4)]]),
            (''color'', JStr ''#007bff''), (''thickness'', JInt 10)]]"

definition demo_single_note :: SermonNote where
  "demo_single_note = \<lparr> id' = ''7'', title = ''t'', date = ''2024-01-07'', serviceType = hd SERVICE_TYPES,
      passage = [], content = [Some ''<b>ab</b>''],
      styles = \<lparr> fontSize = ''16px'', fontFamily = ''Noto Sans KR'', fontWeight = ''400'' \<rparr>,
      drawingData = [Some []] \<rparr>"

definition demo_single_App :: "SermonNote App" where
  "demo_single_App = \<lparr> notes' = [demo_single_note], currentNote = Some demo_single_note,
      activePageIndex = 0, drawingTool = None, isInitialLoad = False \<rparr>"

definition demo_bold_editor :: Editor where
  "demo_bold_editor = \<lparr> childNodes = [Element ''b'' [] [Text ''ab'']], scrollHeight = 500,
      clientHeight = 400 \<rparr>"

definition demo_blank_editor :: Editor where
  "demo_blank_editor = \<lparr> childNodes = [Text ''ab  ''], scrollHeight = 500, clientHeight = 400 \<rparr>"

definition is_object :: "json \<Rightarrow> bool" where
  "is_object v = (case v of JObj _ \<Rightarrow> True | JArr _ \<Rightarrow> True | _ \<Rightarrow> False)"

definition has_id_title :: "json \<Rightarrow> bool" where
  "has_id_title v = (case v of
       JObj kvs \<Rightarrow> ''id'' \<in> set (map fst kvs) \<and> ''title'' \<in> set (map fst kvs)
     | _ \<Rightarrow> False)"

definition imported_note :: "json \<Rightarrow> json" where
  "imported_note v = (case v of JObj kvs \<Rightarrow> JObj (wrap_legacy kvs) | _ \<Rightarrow> v)"

definition demo_json_App :: "json App" where
  "demo_json_App = \<lparr> notes' = [note_json demo_note], currentNote = Some (note_json demo_note),
      activePageIndex = 1, drawingTool = None, isInitialLoad = False \<rparr>"

definition demo_backup :: string where
  \<open>demo_backup = ''[{"id":"1","title":"t","date":"2024-01-07","serviceType":"x","passage":"","content":["a","b"],"styles":{"fontSize":"16px","fontFamily":"Noto Sans KR","fontWeight":"400"},"drawingData":["[]"]}]''\<close>

definition aligned_App :: "SermonNote App \<Rightarrow> bool" where
  "aligned_App s =
     ((\<forall>n\<in>set (notes' s). pages_aligned n) \<and>
      (case currentNote s of
         None \<Rightarrow> True
       | Some c \<Rightarrow> pages_aligned c \<and> activePageIndex s < length (content c)))"

definition num :: "decimal \<Rightarrow> json" where
  "num c = JNum (fst c) (snd c)"

definition num_point :: "decimal \<times> decimal \<Rightarrow> json" where
  "num_point p = JObj [(''x'', num (fst p)), (''y'', num (snd p))]"

definition demo_broken_eraser :: string where
  \<open>demo_broken_eraser = ''[{"tool":"pen","points":[{"x":1,"y":1},{"x":5,"y":5}],"color":"#dc3545","thickness":5},{"tool":"eraser","points":[{"x":1,"y":1},{"x":5,"y":5},null],"color":"#dc3545","thickness":10}]''\<close>

section \<open>Verified properties\<close>

lemma digit_char_props:
  "d < 10 \<Longrightarrow> is_digit (digit_char d)"
  "d < 10 \<Longrightarrow> digit_val (digit_char d) = d"
  "d < 10 \<Longrightarrow> digit_char d \<noteq> CHR ''-''"
  "d < 10 \<Longrightarrow> (digit_char d = CHR ''0'') = (d = 0)"
  by (auto simp: is_digit_def digit_char_def digit_val_def char_of_eq_iff take_bit_eq_mod)

lemma show_nat_digits: "list_all is_digit (show_nat n)"
  by (induction n rule: show_nat.induct) (subst show_nat.simps, simp add: digit_char_props)

lemma show_nat_nonempty: "show_nat n \<noteq> []"
  by (subst show_nat.simps) simp

lemma nat_of_digits_snoc: "nat_of_digits (ds @ [c]) = 10 * nat_of_digits ds + digit_val c"
  by (simp add: nat_of_digits_def)

lemma nat_of_digits_show_nat: "nat_of_digits (show_nat n) = n"
proof (induction n rule: show_nat.induct)
  case (1 n)
  show ?case
  proof (cases "n < 10")
    case True
    then show ?thesis by (subst show_nat.simps) (simp add: nat_of_digits_def digit_char_props)
  next
    case False
    with 1 show ?thesis
      by (subst show_nat.simps) (simp add: nat_of_digits_snoc digit_char_props)
  qed
qed

lemma hd_show_nat: "hd (show_nat n) = CHR ''0'' \<Longrightarrow> n = 0"
proof (induction n rule: show_nat.induct)
  case (1 n)
  show ?case
  proof (cases "n < 10")
    case True
    with 1(2) show ?thesis by (subst (asm) show_nat.simps) (simp add: digit_char_props)
  next
    case False
    have "hd (show_nat n) = hd (show_nat (n div 10))"
      using False show_nat_nonempty[of "n div 10"] by (subst show_nat.simps) simp
    with 1 False have "n div 10 = 0" by simp
    with False show ?thesis by simp
  qed
qed

lemma show_nat_0: "show_nat 0 = ''0''"
  by code_simp

lemma show_nat_no_minus: "hd (show_nat n) \<noteq> CHR ''-''"
proof -
  have "is_digit (hd (show_nat n))"
    using show_nat_digits[of n] show_nat_nonempty[of n] by (cases "show_nat n") auto
  then show ?thesis by (auto simp: is_digit_def)
qed

lemma takeWhile_digits:
  "list_all is_digit ds \<Longrightarrow> follow_ok r \<Longrightarrow> takeWhile is_digit (ds @ r) = ds \<and> dropWhile is_digit (ds @ r) = r"
  by (induction ds) (auto simp: follow_ok_def split: list.splits)

lemma nat_of_digits_zeros: "nat_of_digits (replicate z (CHR ''0'') @ ds) = nat_of_digits ds"
proof -
  have "foldl (\<lambda>acc c. 10 * acc + digit_val c) 0 (replicate z (CHR ''0'')) = 0"
    by (induction z) (simp_all add: digit_val_def)
  then show ?thesis by (simp add: nat_of_digits_def)
qed

lemma takeWhile_digits_stop:
  "list_all is_digit ds \<Longrightarrow> \<not> is_digit c \<Longrightarrow>
   takeWhile is_digit (ds @ c # r) = ds \<and> dropWhile is_digit (ds @ c # r) = c # r"
  by (induction ds) auto

lemma takeWhile_digits_end:
  "list_all is_digit ds \<Longrightarrow> takeWhile is_digit ds = ds \<and> dropWhile is_digit ds = []"
  by (induction ds) auto

lemma takeWhile_digits_follow:
  assumes "list_all is_digit ds" "follow_ok r"
  shows "takeWhile is_digit (ds @ r) = ds" "dropWhile is_digit (ds @ r) = r"
  using takeWhile_digits[OF assms] by simp_all

lemma parse_frac_none:
  "follow_ok r \<Longrightarrow> parse_frac r = Some ([], r)"
  by (cases r) (auto simp: parse_frac_def follow_ok_def)

lemma parse_exp_none:
  "follow_ok r \<Longrightarrow> parse_exp r = Some (0, r)"
  by (cases r) (auto simp: parse_exp_def follow_ok_def)

lemma not_digit_dot: "\<not> is_digit (CHR ''.'')"
  by (simp add: is_digit_def)

lemma parse_frac_digits:
  assumes "list_all is_digit fs" "fs \<noteq> []" "follow_ok r"
  shows "parse_frac (CHR ''.'' # fs @ r) = Some (fs, r)"
  using assms takeWhile_digits_follow[OF assms(1,3)] by (simp add: parse_frac_def)

lemma normalise_wf: "m mod 10 \<noteq> 0 \<Longrightarrow> 0 < k \<Longrightarrow> normalise m k = (m, k)"
  by (cases k) simp_all

lemma body_unsigned:
  assumes "wf_num (int n) k" "follow_ok r"
  defines "ds \<equiv> show_nat n"
  defines "pad \<equiv> replicate (Suc k - length ds) (CHR ''0'') @ ds"
  defines "body \<equiv> (if k = 0 then ds else take (length pad - k) pad @ CHR ''.'' # drop (length pad - k) pad)"
  shows "\<exists>c cs. body = c # cs \<and> is_digit c"
    and "(let b = takeWhile is_digit (body @ r) in
           b \<noteq> [] \<and> \<not> (1 < length b \<and> hd b = CHR ''0'') \<and>
           (case parse_frac (dropWhile is_digit (body @ r)) of
              None \<Rightarrow> False
            | Some (fs, r2) \<Rightarrow> r2 = r \<and> length fs = k \<and> nat_of_digits (b @ fs) = n))"
proof -
  have dig: "list_all is_digit ds" unfolding ds_def by (rule show_nat_digits)
  have ne: "ds \<noteq> []" unfolding ds_def by (rule show_nat_nonempty)
  have val: "nat_of_digits ds = n" unfolding ds_def by (rule nat_of_digits_show_nat)
  have lz: "hd ds = CHR ''0'' \<Longrightarrow> n = 0" unfolding ds_def by (rule hd_show_nat)
  have "is_digit (CHR ''0'')" by (simp add: is_digit_def)
  then have pdig: "list_all is_digit pad" using dig by (auto simp: pad_def list_all_iff)
  have plen: "k < length pad" using ne by (auto simp: pad_def)
  have pval: "nat_of_digits pad = n" by (simp add: pad_def nat_of_digits_zeros val)
  show "\<exists>c cs. body = c # cs \<and> is_digit c"
  proof (cases "k = 0")
    case True
    then show ?thesis using ne dig by (cases ds) (auto simp: body_def)
  next
    case False
    obtain c cs where p: "pad = c # cs" using plen by (cases pad) auto
    then have "is_digit c" using pdig by simp
    moreover have "take (length pad - k) pad = c # take (length pad - k - 1) cs"
      using plen p by (cases "length pad - k") auto
    ultimately show ?thesis using False by (simp add: body_def)
  qed
  show "(let b = takeWhile is_digit (body @ r) in
           b \<noteq> [] \<and> \<not> (1 < length b \<and> hd b = CHR ''0'') \<and>
           (case parse_frac (dropWhile is_digit (body @ r)) of
              None \<Rightarrow> False
            | Some (fs, r2) \<Rightarrow> r2 = r \<and> length fs = k \<and> nat_of_digits (b @ fs) = n))"
  proof (cases "k = 0")
    case True
    then have b: "body = ds" by (simp add: body_def)
    have "\<not> (1 < length ds \<and> hd ds = CHR ''0'')"
    proof
      assume a: "1 < length ds \<and> hd ds = CHR ''0''"
      then have "n = 0" using lz by simp
      with a show False by (simp add: ds_def show_nat_0)
    qed
    then show ?thesis
      using True takeWhile_digits_follow[OF dig assms(2)] ne val parse_frac_none[OF assms(2)]
      by (simp add: b Let_def)
  next
    case False
    then have k: "0 < k" by simp
    let ?ip = "take (length pad - k) pad"
    let ?fp = "drop (length pad - k) pad"
    have b: "body @ r = ?ip @ CHR ''.'' # (?fp @ r)" using False by (simp add: body_def)
    have ipd: "list_all is_digit ?ip" and fpd: "list_all is_digit ?fp"
      using pdig by (auto simp: list_all_iff dest: in_set_takeD in_set_dropD)
    have ipne: "?ip \<noteq> []" using plen by auto
    have fplen: "length ?fp = k" using plen by simp
    then have fpne: "?fp \<noteq> []" using k by auto
    have tw: "takeWhile is_digit (body @ r) = ?ip" "dropWhile is_digit (body @ r) = CHR ''.'' # (?fp @ r)"
      using takeWhile_digits_stop[OF ipd not_digit_dot, of "?fp @ r"] by (simp_all add: b)
    have n0: "n \<noteq> 0" using assms(1) False by (cases "n = 0") (auto simp: wf_num_def)
    have lead: "\<not> (1 < length ?ip \<and> hd ?ip = CHR ''0'')"
    proof (cases "Suc k \<le> length ds")
      case True
      then have "pad = ds" by (simp add: pad_def)
      moreover have "hd ?ip = hd pad" using ipne by (simp add: hd_take)
      ultimately show ?thesis using lz n0 by auto
    next
      case False
      then have "length pad = Suc k" by (simp add: pad_def)
      then show ?thesis by simp
    qed
    have "nat_of_digits (?ip @ ?fp) = n" using pval by simp
    then show ?thesis
      using ipne lead fplen parse_frac_digits[OF fpd fpne assms(2)]
      by (simp add: tw Let_def)
  qed
qed

lemma neg_mod10: "(int n) mod 10 \<noteq> 0 \<Longrightarrow> (- int n) mod 10 \<noteq> 0"
  by (metis dvd_minus_iff mod_eq_0_iff_dvd)

lemma parse_num_show_signed:
  assumes "wf_num (int n) k" "follow_ok r"
  shows "parse_num (show_num (int n) k @ r) = Some ((int n, k), r)"
    and "parse_num (CHR ''-'' # show_num (int n) k @ r) = Some ((- int n, k), r)"
proof -
  define body where "body = (if k = 0 then show_nat n
     else take (length (replicate (Suc k - length (show_nat n)) (CHR ''0'') @ show_nat n) - k)
            (replicate (Suc k - length (show_nat n)) (CHR ''0'') @ show_nat n)
          @ CHR ''.'' # drop (length (replicate (Suc k - length (show_nat n)) (CHR ''0'') @ show_nat n) - k)
            (replicate (Suc k - length (show_nat n)) (CHR ''0'') @ show_nat n))"
  have sd: "show_num (int n) k = body" by (simp add: show_num_def body_def Let_def)
  obtain c cs where hd: "body = c # cs" "is_digit c"
    using body_unsigned(1)[OF assms] unfolding body_def by blast
  then have nm: "c \<noteq> CHR ''-''" by (auto simp: is_digit_def)
  have main: "(let b = takeWhile is_digit (body @ r) in
           b \<noteq> [] \<and> \<not> (1 < length b \<and> hd b = CHR ''0'') \<and>
           (case parse_frac (dropWhile is_digit (body @ r)) of
              None \<Rightarrow> False
            | Some (fs, r2) \<Rightarrow> r2 = r \<and> length fs = k \<and> nat_of_digits (b @ fs) = n))"
    using body_unsigned(2)[OF assms] unfolding body_def .
  obtain fs where pf: "parse_frac (dropWhile is_digit (body @ r)) = Some (fs, r)"
      and fl: "length fs = k" and v: "nat_of_digits (takeWhile is_digit (body @ r) @ fs) = n"
      and bne: "takeWhile is_digit (body @ r) \<noteq> []"
      and lead: "\<not> (1 < length (takeWhile is_digit (body @ r)) \<and> hd (takeWhile is_digit (body @ r)) = CHR ''0'')"
    using main by (auto simp: Let_def split: option.splits)
  have sc: "scale (int n) k 0 = (int n, k)" "scale (- int n) k 0 = (- int n, k)"
    using assms(1) neg_mod10[of n]
    by (cases "k = 0"; auto simp: scale_def wf_num_def normalise_wf)+
  have neg: "(case body @ r of [] \<Rightarrow> False | c # _ \<Rightarrow> c = CHR ''-'') = False"
    using hd nm by simp
  show "parse_num (show_num (int n) k @ r) = Some ((int n, k), r)"
    unfolding sd parse_num_def neg Let_def
    using bne lead by (simp add: pf parse_exp_none[OF assms(2)] fl v sc)
  have neg2: "(case CHR ''-'' # body @ r of [] \<Rightarrow> False | c # _ \<Rightarrow> c = CHR ''-'') = True"
    by simp
  show "parse_num (CHR ''-'' # show_num (int n) k @ r) = Some ((- int n, k), r)"
    unfolding sd parse_num_def neg2 Let_def
    using bne lead by (simp add: pf parse_exp_none[OF assms(2)] fl v sc)
qed

lemma parse_num_show_num:
  assumes "wf_num m k" "follow_ok r"
  shows "parse_num (show_num m k @ r) = Some ((m, k), r)"
proof (cases "m < 0")
  case False
  then have m: "m = int (nat m)" by simp
  show ?thesis
    using parse_num_show_signed(1)[of "nat m" k r] assms m by simp
next
  case True
  define n where "n = nat (- m)"
  have mn: "m = - int n" using True by (simp add: n_def)
  have wfn: "wf_num (int n) k"
    using assms(1) unfolding wf_num_def mn by (metis dvd_minus_iff mod_eq_0_iff_dvd)
  have sd: "show_num m k = CHR ''-'' # show_num (int n) k"
    using True by (simp add: show_num_def Let_def n_def)
  show ?thesis
    unfolding sd using parse_num_show_signed(2)[OF wfn assms(2)] by (simp add: mn)
qed

lemma show_num_hd: "\<exists>c cs. show_num m k = c # cs \<and> (c = CHR ''-'' \<or> is_digit c)"
proof (cases "m < 0")
  case True
  then show ?thesis by (simp add: show_num_def Let_def)
next
  case False
  define ds where "ds = show_nat (nat \<bar>m\<bar>)"
  define pad where "pad = replicate (Suc k - length ds) (CHR ''0'') @ ds"
  have dig: "list_all is_digit ds" unfolding ds_def by (rule show_nat_digits)
  have ne: "ds \<noteq> []" unfolding ds_def by (rule show_nat_nonempty)
  have "is_digit (CHR ''0'')" by (simp add: is_digit_def)
  then have pdig: "list_all is_digit pad" using dig by (auto simp: pad_def list_all_iff)
  have plen: "k < length pad" using ne by (auto simp: pad_def)
  obtain c cs where p: "pad = c # cs" using plen by (cases pad) auto
  then have c: "is_digit c" using pdig by simp
  have t: "take (length pad - k) pad = c # take (length pad - k - 1) cs"
    using plen p by (cases "length pad - k") auto
  obtain d es where d: "ds = d # es" "is_digit d" using ne dig by (cases ds) auto
  have "show_num m k = (if k = 0 then ds else take (length pad - k) pad @ CHR ''.'' # drop (length pad - k) pad)"
    using False by (simp add: show_num_def Let_def ds_def pad_def)
  then show ?thesis using c t d by (cases "k = 0") auto
qed

lemma hex_val_hex_char: "d < 16 \<Longrightarrow> hex_val (hex_char d) = Some d"
  by (auto simp: hex_val_def hex_char_def Let_def)

lemma hex_val_zero: "hex_val (CHR ''0'') = Some 0"
  by (simp add: hex_val_def)

lemma hex4_ctrl: "n < 32 \<Longrightarrow> hex4 (CHR ''0'') (CHR ''0'') (hex_char (n div 16)) (hex_char (n mod 16)) = Some n"
  by (simp add: hex4_def hex_val_zero hex_val_hex_char)

lemma char_eq_code: "(c = d) = ((of_char c :: nat) = of_char d)"
  by simp

lemma char_of_ctrl:
  "char_of (34::nat) = CHR 0x22" "char_of (92::nat) = CHR 0x5C" "char_of (8::nat) = CHR 0x08"
  "char_of (12::nat) = CHR 0x0C" "char_of (10::nat) = CHR 0x0A" "char_of (13::nat) = CHR 0x0D"
  "char_of (9::nat) = CHR 0x09"
  by (simp_all add: char_of_eq_iff take_bit_eq_mod)

lemma parse_chars_escape:
  "parse_chars (escape_char c @ t) = map_option (\<lambda>(s, r). (c # s, r)) (parse_chars t)"
proof -
  define n where "n = (of_char c :: nat)"
  have c: "c = char_of n" by (simp add: n_def)
  consider "n = 0x22" | "n = 0x5C" | "n = 8" | "n = 12" | "n = 10" | "n = 13" | "n = 9"
    | "n < 32" "n \<notin> {8, 12, 10, 13, 9}" | "n \<ge> 32" "n \<noteq> 0x22" "n \<noteq> 0x5C"
    by fastforce
  then show ?thesis
  proof cases
    case 8
    then have e: "escape_char c = [CHR 0x5C, CHR ''u'', CHR ''0'', CHR ''0'', hex_char (n div 16), hex_char (n mod 16)]"
      by (auto simp: escape_char_def n_def[symmetric] Let_def)
    have u: "utf8 n = [c]" using 8 by (simp add: utf8_def c)
    have l: "low_surrogate n t = None" using 8 by (simp add: low_surrogate_def)
    show ?thesis
      by (simp add: e hex4_ctrl[OF 8(1)] u l)
  next
    case 9
    then have e: "escape_char c = [c]"
      by (auto simp: escape_char_def n_def[symmetric] Let_def)
    have "c \<noteq> CHR 0x22" "c \<noteq> CHR 0x5C" "\<not> (of_char c :: nat) < 32"
      using 9 by (auto simp: char_eq_code n_def)
    then show ?thesis by (simp add: e)
  qed (simp_all add: escape_char_def n_def[symmetric] Let_def c unescape_def char_of_ctrl)
qed

lemma parse_chars_quote:
  "parse_chars (concat (map escape_char s) @ CHR 0x22 # r) = Some (s, r)"
  by (induction s) (simp_all add: parse_chars_escape)

lemma quote_parse: "quote s @ r = CHR 0x22 # (concat (map escape_char s) @ CHR 0x22 # r)"
  by (simp add: quote_def)

lemma skip_ws_nonws: "\<not> is_ws c \<Longrightarrow> skip_ws (c # cs) = c # cs"
  by (simp add: skip_ws_def)

lemma num_start:
  assumes "c = CHR ''-'' \<or> is_digit c"
  shows "\<not> is_ws c" "c \<noteq> CHR ''n''" "c \<noteq> CHR ''t''" "c \<noteq> CHR ''f''" "c \<noteq> CHR 0x22"
    "c \<noteq> CHR ''[''" "c \<noteq> CHR ''{''" "c \<noteq> CHR '']''" "c \<noteq> CHR ''}''"
  using assms by (auto simp: is_digit_def is_ws_def)

lemma stringify_hd:
  "\<exists>c cs. stringify v = c # cs \<and> \<not> is_ws c \<and> c \<noteq> CHR '']'' \<and> c \<noteq> CHR ''}''"
proof (cases v)
  case (JNum m k)
  obtain c cs where "show_num m k = c # cs" "c = CHR ''-'' \<or> is_digit c"
    using show_num_hd by blast
  then show ?thesis using JNum num_start[of c] by auto
qed (auto simp: is_ws_def quote_def)

lemma parse_value_num:
  assumes "wf_num m k" "follow_ok r"
  shows "parse_value (Suc n) (show_num m k @ r) = Some (JNum m k, r)"
proof -
  obtain c cs where ccs: "show_num m k = c # cs" and c: "c = CHR ''-'' \<or> is_digit c"
    using show_num_hd by blast
  have "parse_num (c # cs @ r) = Some ((m, k), r)"
    using parse_num_show_num[OF assms] ccs by simp
  then show ?thesis
    using num_start[OF c] by (simp add: ccs skip_ws_nonws)
qed

lemma key_order_butlast: "key_order (ks @ [k]) \<Longrightarrow> key_order ks"
proof (induction ks)
  case Nil
  then show ?case by simp
next
  case (Cons a ks)
  then show ?case by (cases ks) (auto split: if_splits)
qed

lemma key_order_last_index:
  "key_order (ks @ [k]) \<Longrightarrow> is_array_index k \<Longrightarrow>
   \<forall>k'\<in>set ks. is_array_index k' \<and> nat_of_digits k' < nat_of_digits k"
proof (induction ks)
  case Nil
  then show ?case by simp
next
  case (Cons a ks)
  show ?case
  proof (cases ks)
    case Nil
    with Cons.prems show ?thesis by simp
  next
    case (Cons b bs)
    with Cons.prems have ko: "key_order (ks @ [k])" by simp
    from Cons.IH[OF ko Cons.prems(2)]
    have ih: "\<forall>k'\<in>set ks. is_array_index k' \<and> nat_of_digits k' < nat_of_digits k" .
    then have b: "is_array_index b" "nat_of_digits b < nat_of_digits k" using Cons by simp_all
    from Cons.prems(1) Cons b have "is_array_index a \<and> nat_of_digits a < nat_of_digits b" by simp
    with b ih show ?thesis by auto
  qed
qed

lemma foldl_obj_put:
  "distinct (map fst kvs) \<Longrightarrow> key_order (map fst kvs) \<Longrightarrow>
   foldl (\<lambda>acc (k, v). obj_put acc k v) [] kvs = kvs"
proof (induction kvs rule: rev_induct)
  case Nil
  then show ?case by simp
next
  case (snoc kv kvs)
  obtain k v where kv: "kv = (k, v)" by (cases kv)
  from snoc.prems have d: "distinct (map fst kvs)" and nk: "k \<notin> set (map fst kvs)"
    by (simp_all add: kv)
  from snoc.prems have ko: "key_order (map fst kvs @ [k])" by (simp add: kv)
  then have o: "key_order (map fst kvs)" by (rule key_order_butlast)
  have ih: "foldl (\<lambda>acc (k, v). obj_put acc k v) [] kvs = kvs" by (rule snoc.IH[OF d o])
  have "obj_put kvs k v = kvs @ [(k, v)]"
  proof (cases "is_array_index k")
    case True
    from key_order_last_index[OF ko True]
    have "\<forall>x\<in>set kvs. index_below k x" by (auto simp: index_below_def)
    then have "takeWhile (index_below k) kvs = kvs" "dropWhile (index_below k) kvs = []"
      by (simp_all add: takeWhile_eq_all_conv)
    with nk True show ?thesis by (simp add: obj_put_def)
  next
    case False
    with nk show ?thesis by (simp add: obj_put_def)
  qed
  then show ?case by (simp add: ih kv)
qed

lemma follow_ok_simps [simp]:
  "follow_ok []" "follow_ok (CHR '','' # r)" "follow_ok (CHR '']'' # r)" "follow_ok (CHR ''}'' # r)"
  by (simp_all add: follow_ok_def is_digit_def)

lemma ws_simps [simp]:
  "\<not> is_ws (CHR '','')" "\<not> is_ws (CHR '']'')" "\<not> is_ws (CHR ''}'')" "\<not> is_ws (CHR '':'')"
  "\<not> is_ws (CHR 0x22)" "\<not> is_ws (CHR ''['')" "\<not> is_ws (CHR ''{'')"
  "\<not> is_ws (CHR ''n'')" "\<not> is_ws (CHR ''t'')" "\<not> is_ws (CHR ''f'')"
  by (simp_all add: is_ws_def)

lemma roundtrip_aux:
  "wf_json v \<longrightarrow> (\<forall>n r. need v \<le> n \<longrightarrow> follow_ok r \<longrightarrow>
      parse_value n (stringify v @ r) = Some (v, r))"
  "vs \<noteq> [] \<longrightarrow> wf_elems vs \<longrightarrow> (\<forall>n r. need_elems vs \<le> n \<longrightarrow>
      parse_elements n (stringify_elems vs @ CHR '']'' # r) = Some (vs, r))"
  "kvs \<noteq> [] \<longrightarrow> wf_members kvs \<longrightarrow> (\<forall>n r. need_members kvs \<le> n \<longrightarrow>
      parse_members n (stringify_members kvs @ CHR ''}'' # r) = Some (kvs, r))"
proof (induction v and vs and kvs rule: stringify_stringify_elems_stringify_members.induct)
  case 1
  show ?case
  proof (intro impI allI)
    fix n r assume "need JNull \<le> n"
    then obtain m where "n = Suc m" by (cases n) auto
    then show "parse_value n (stringify JNull @ r) = Some (JNull, r)"
      by (simp add: skip_ws_nonws expect_def)
  qed
next
  case (2 b)
  show ?case
  proof (intro impI allI)
    fix n r assume "need (JBool b) \<le> n"
    then obtain m where "n = Suc m" by (cases n) auto
    then show "parse_value n (stringify (JBool b) @ r) = Some (JBool b, r)"
      by (simp add: skip_ws_nonws expect_def)
  qed
next
  case (3 m k)
  show ?case
  proof (intro impI allI)
    fix n r assume w: "wf_json (JNum m k)" and "need (JNum m k) \<le> n" and f: "follow_ok r"
    then obtain n' where "n = Suc n'" by (cases n) auto
    then show "parse_value n (stringify (JNum m k) @ r) = Some (JNum m k, r)"
      using parse_value_num[OF _ f, of m k] w by simp
  qed
next
  case (4 s)
  show ?case
  proof (intro impI allI)
    fix n r assume "need (JStr s) \<le> n"
    then obtain m where "n = Suc m" by (cases n) auto
    then show "parse_value n (stringify (JStr s) @ r) = Some (JStr s, r)"
      by (simp add: quote_parse skip_ws_nonws parse_chars_quote)
  qed
next
  case (5 vs)
  show ?case
  proof (intro impI allI)
    fix n r assume wf: "wf_json (JArr vs)" and nd: "need (JArr vs) \<le> n"
    then obtain m where n: "n = Suc m" and m: "need_elems vs \<le> m" by (cases n) auto
    show "parse_value n (stringify (JArr vs) @ r) = Some (JArr vs, r)"
    proof (cases vs)
      case Nil
      then show ?thesis by (simp add: n skip_ws_nonws)
    next
      case (Cons w ws)
      obtain c cs where h: "stringify w = c # cs" "\<not> is_ws c" "c \<noteq> CHR '']''"
        using stringify_hd by blast
      have "\<exists>t. stringify_elems vs = c # t"
        using h Cons by (cases ws) auto
      then obtain t where t: "stringify_elems vs = c # t" by blast
      have "parse_elements m (stringify_elems vs @ CHR '']'' # r) = Some (vs, r)"
        using 5 wf m Cons by simp
      then show ?thesis
        using h by (simp add: n skip_ws_nonws t)
    qed
  qed
next
  case (6 kvs)
  show ?case
  proof (intro impI allI)
    fix n r assume wf: "wf_json (JObj kvs)" and nd: "need (JObj kvs) \<le> n"
    then obtain m where n: "n = Suc m" and m: "need_members kvs \<le> m" by (cases n) auto
    show "parse_value n (stringify (JObj kvs) @ r) = Some (JObj kvs, r)"
    proof (cases kvs)
      case Nil
      then show ?thesis by (simp add: n skip_ws_nonws)
    next
      case (Cons kv kvs')
      obtain k v where kv: "kv = (k, v)" by (cases kv)
      have "\<exists>t. stringify_members kvs = CHR 0x22 # t"
        using Cons kv by (cases kvs') (auto simp: quote_def)
      then obtain t where t: "stringify_members kvs = CHR 0x22 # t" by blast
      have "parse_members m (stringify_members kvs @ CHR ''}'' # r) = Some (kvs, r)"
        using 6 wf m Cons by simp
      then show ?thesis
        using wf by (simp add: n skip_ws_nonws t foldl_obj_put)
    qed
  qed
next
  case 7
  show ?case by simp
next
  case (8 v)
  show ?case
  proof (intro impI allI)
    fix n r assume wf: "wf_elems [v]" and nd: "need_elems [v] \<le> n"
    then obtain m where n: "n = Suc m" and m: "need v \<le> m" by (cases n) auto
    have "parse_value m (stringify v @ CHR '']'' # r) = Some (v, CHR '']'' # r)"
      using 8 wf m by simp
    then show "parse_elements n (stringify_elems [v] @ CHR '']'' # r) = Some ([v], r)"
      by (simp add: n skip_ws_nonws)
  qed
next
  case (9 v w vs)
  show ?case
  proof (intro impI allI)
    fix n r assume wf: "wf_elems (v # w # vs)" and nd: "need_elems (v # w # vs) \<le> n"
    then obtain m where n: "n = Suc m" and m: "need v \<le> m" "need_elems (w # vs) \<le> m"
      by (cases n) auto
    let ?rest = "stringify_elems (w # vs) @ CHR '']'' # r"
    have a: "parse_value m (stringify v @ CHR '','' # ?rest) = Some (v, CHR '','' # ?rest)"
      using 9(1) wf m by simp
    have b: "parse_elements m ?rest = Some (w # vs, r)"
      using 9(2) wf m by simp
    show "parse_elements n (stringify_elems (v # w # vs) @ CHR '']'' # r) = Some (v # w # vs, r)"
      using a b by (simp add: n skip_ws_nonws)
  qed
next
  case 10
  show ?case by simp
next
  case (11 k v)
  show ?case
  proof (intro impI allI)
    fix n r assume wf: "wf_members [(k, v)]" and nd: "need_members [(k, v)] \<le> n"
    then obtain m where n: "n = Suc m" and m: "need v \<le> m" by (cases n) auto
    have "parse_value m (stringify v @ CHR ''}'' # r) = Some (v, CHR ''}'' # r)"
      using 11 wf m by simp
    then show "parse_members n (stringify_members [(k, v)] @ CHR ''}'' # r) = Some ([(k, v)], r)"
      by (simp add: n quote_parse skip_ws_nonws parse_chars_quote)
  qed
next
  case (12 k v kv kvs)
  show ?case
  proof (intro impI allI)
    fix n r assume wf: "wf_members ((k, v) # kv # kvs)"
      and nd: "need_members ((k, v) # kv # kvs) \<le> n"
    then obtain m where n: "n = Suc m" and m: "need v \<le> m" "need_members (kv # kvs) \<le> m"
      by (cases n) auto
    let ?rest = "stringify_members (kv # kvs) @ CHR ''}'' # r"
    have wf2: "wf_json v" "wf_members (kv # kvs)" using wf by auto
    have a: "parse_value m (stringify v @ CHR '','' # ?rest) = Some (v, CHR '','' # ?rest)"
      using 12(1) wf2 m by simp
    have b: "parse_members m ?rest = Some (kv # kvs, r)"
      using 12(2) wf2 m by simp
    show "parse_members n (stringify_members ((k, v) # kv # kvs) @ CHR ''}'' # r)
        = Some ((k, v) # kv # kvs, r)"
      using a b by (simp add: n quote_parse skip_ws_nonws parse_chars_quote)
  qed
qed


lemma need_le_length:
  "need v \<le> length (stringify v)"
  "vs \<noteq> [] \<longrightarrow> need_elems vs \<le> Suc (length (stringify_elems vs))"
  "kvs \<noteq> [] \<longrightarrow> need_members kvs \<le> Suc (length (stringify_members kvs))"
proof (induction v and vs and kvs rule: stringify_stringify_elems_stringify_members.induct)
  case (3 m k)
  obtain c cs where "show_num m k = c # cs" using show_num_hd by blast
  then show ?case by simp
next
  case (5 vs)
  then show ?case by (cases vs) auto
next
  case (6 kvs)
  then show ?case by (cases kvs) auto
qed (auto simp: quote_def)

lemma JSON_parse_stringify:
  assumes "wf_json v"
  shows "JSON_parse (stringify v) = Some v"
proof -
  define N where "N = Suc (Suc (2 * length (stringify v)))"
  have "need v \<le> N"
    using need_le_length(1)[of v] by (simp add: N_def)
  then have pv: "parse_value N (stringify v) = Some (v, [])"
    using roundtrip_aux(1)[rule_format, of v N "[]"] assms by simp
  show ?thesis
    unfolding JSON_parse_def N_def[symmetric] pv by (simp add: skip_ws_def)
qed

lemma stringify_array_nonempty: "stringify (JArr vs) \<noteq> []"
  by simp

text \<open>
  Claim C5. Deserialising the serialisation of a stroke list gives the list back, stroke for
  stroke, point for point and field for field. The stroke list is any array of JSON values
  that a JavaScript heap can hold (objects with distinct keys); serialisation is
  \<open>JSON.stringify(lines)\<close> in \<open>stopDrawing\<close>, deserialisation is the effect that
  runs \<open>JSON.parse\<close> on the page's drawing data.
\<close>

theorem deserialize_serialize_strokes:
  "wf_json (JArr strokes) \<Longrightarrow> deserialize (stringify (JArr strokes)) = JArr strokes"
  unfolding deserialize_def
  using JSON_parse_stringify[of "JArr strokes"] stringify_array_nonempty[of strokes]
  by simp

theorem deserialize_serialize_strokes_witness:
  \<open>wf_json (JArr demo_strokes)
   \<and> stringify (JArr demo_strokes) = ''[{"tool":"pen","points":[{"x":10.5,"y":20},{"x":11,"y":22.25},{"x":-0.125,"y":25}],"color":"#dc3545","thickness":5},{"tool":"eraser","points":[{"x":3,"y":4}],"color":"#007bff","thickness":10}]''
   \<and> deserialize (stringify (JArr demo_strokes)) = JArr demo_strokes\<close>
proof -
  have w: "wf_json (JArr demo_strokes)" by code_simp
  have t: \<open>stringify (JArr demo_strokes) = ''[{"tool":"pen","points":[{"x":10.5,"y":20},{"x":11,"y":22.25},{"x":-0.125,"y":25}],"color":"#dc3545","thickness":5},{"tool":"eraser","points":[{"x":3,"y":4}],"color":"#007bff","thickness":10}]''\<close>
    by code_simp
  show ?thesis
    using deserialize_serialize_strokes[OF w] w t by simp
qed

lemma stopDrawing_call:
  "snd (stopDrawing p) =
     (if isDrawing p \<and> stringify (lines p) \<noteq> drawingData' p
      then Some (pageIndex' p, stringify (lines p)) else None)"
  by (auto simp: stopDrawing_def Let_def)

text \<open>
  Claim C7. Ending a drawing gesture commits a serialisation to the Page Store only when it
  differs from the serialisation previously committed for that page. When the serialised
  stroke list equals the page's drawing data, \<open>stopDrawing\<close> makes no call to
  \<open>onDrawingChange\<close> and the application state is left as it was; when a gesture is in
  progress and the serialisation differs, exactly that serialisation is written at the
  page's index.
\<close>

theorem stopDrawing_commits_only_when_changed:
  "(stringify (lines p) = drawingData' p \<longrightarrow>
      snd (stopDrawing p) = None \<and> snd (stopDrawing_App p s) = s)
   \<and> (isDrawing p \<and> stringify (lines p) \<noteq> drawingData' p \<longrightarrow>
      snd (stopDrawing p) = Some (pageIndex' p, stringify (lines p))
      \<and> snd (stopDrawing_App p s) = handleDrawingChange (pageIndex' p) (stringify (lines p)) s)"
  by (auto simp: stopDrawing_def stopDrawing_App_def Let_def)


theorem stopDrawing_commits_only_when_changed_witness:
  "stringify (lines demo_page) = drawingData' demo_page
   \<and> snd (stopDrawing demo_page) = None
   \<and> snd (stopDrawing_App demo_page demo_App) = demo_App
   \<and> isDrawing (demo_page\<lparr>lines := JArr [stroke_json pen [(3, 4)] ''#dc3545'' 5]\<rparr>)
   \<and> stringify (lines (demo_page\<lparr>lines := JArr [stroke_json pen [(3, 4)] ''#dc3545'' 5]\<rparr>))
       \<noteq> drawingData' (demo_page\<lparr>lines := JArr [stroke_json pen [(3, 4)] ''#dc3545'' 5]\<rparr>)
   \<and> snd (stopDrawing (demo_page\<lparr>lines := JArr [stroke_json pen [(3, 4)] ''#dc3545'' 5]\<rparr>))
       = Some (1, stringify (JArr [stroke_json pen [(3, 4)] ''#dc3545'' 5]))"
  using stopDrawing_commits_only_when_changed[of demo_page demo_App]
    stopDrawing_commits_only_when_changed[of "demo_page\<lparr>lines := JArr [stroke_json pen [(3, 4)] ''#dc3545'' 5]\<rparr>" demo_App]
  by (simp add: demo_page_def stroke_json_def tool_name_def point_json_def quote_def)

lemma deserialize_empty: "deserialize [] = JArr []"
  by (simp add: deserialize_def)

lemma deserialize_malformed: "JSON_parse d = None \<Longrightarrow> deserialize d = JArr []"
  by (simp add: deserialize_def)

lemma JSON_parse_empty: "JSON_parse [] = None"
  by code_simp

lemma deserialize_parsed: "JSON_parse d = Some v \<Longrightarrow> deserialize d = v"
  using JSON_parse_empty by (cases "d = []") (auto simp: deserialize_def)

lemma drawOnCanvas_nothing_to_draw:
  "d = [] \<or> JSON_parse d = None \<or> (\<exists>v. JSON_parse d = Some v \<and> (\<forall>ls. v \<noteq> JArr ls)) \<Longrightarrow>
   fst (drawOnCanvas True w h (Some d)) = [ClearRect 0 0 w h]"
  by (auto simp: drawOnCanvas_def Let_def split: json.splits)

text \<open>
  Claim C6. An empty, malformed or non-array drawing string should deserialise to the empty
  stroke list. The renderer \<open>drawOnCanvas\<close> treats all three that way, but the
  deserialising effect of \<open>EditablePage\<close> has no \<open>Array.isArray\<close> check: drawing data
  that parses to an object is kept as the stroke list, and the next gesture start fails on
  spreading it.
\<close>

theorem deserialize_keeps_non_array:
  \<open>deserialize ''{"a":1}'' = JObj [(''a'', JInt 1)]
   \<and> deserialize ''{"a":1}'' \<noteq> JArr []
   \<and> startDrawing (0, 0) (3, 4) (setDrawingData ''{"a":1}'' demo_page) = Inl TypeError
   \<and> drawOnCanvas True 300 400 (Some ''{"a":1}'') = ([ClearRect 0 0 300 400], [])\<close>
  by code_simp

lemma js_lt_length: "js_lt (property (JArr ps) ''length'') 2 = Inr (length ps < 2)"
  by (auto simp: js_lt_def property_def)






lemma style_cmds_eraser:
  assumes "map_of kvs ''tool'' = Some (JStr ''eraser'')"
  shows "style_cmds (JObj kvs) =
     [SetGlobalCompositeOperation ''destination-out'',
      SetStrokeStyle (Some (JStr ''rgba(0,0,0,1)'')),
      SetLineWidth (map_of kvs ''thickness''), SetLineCap ''round'', SetLineJoin ''round'',
      BeginPath]"
  using assms by (simp add: style_cmds_def property_def js_or_def truthy_def)




lemma paint_append: "paint cover s (a @ b) = paint cover (paint cover s a) b"
  by (simp add: paint_def)

lemma forEach_line_append:
  "snd (forEach_line ls) = None \<Longrightarrow>
   forEach_line (ls @ [e]) = (fst (forEach_line ls) @ fst (line_cmds e), snd (line_cmds e))"
proof (induction ls)
  case Nil
  then show ?case by (cases "line_cmds e") (auto split: option.splits)
next
  case (Cons l ls)
  obtain cs er where l: "line_cmds l = (cs, er)" by (cases "line_cmds l")
  show ?case
  proof (cases er)
    case (Some x)
    with Cons.prems l show ?thesis by simp
  next
    case None
    with Cons.prems l have "snd (forEach_line ls) = None"
      by (cases "forEach_line ls") simp
    from Cons.IH[OF this] None l show ?thesis
      by (cases "forEach_line ls") (simp split: prod.splits)
  qed
qed

lemma nth_tail_indices: "pts \<noteq> [] \<Longrightarrow> pts ! 0 # map (\<lambda>i. pts ! i) [1..<length pts] = pts"
proof -
  assume "pts \<noteq> []"
  then obtain p ps where pts: "pts = p # ps" by (cases pts) auto
  have "map (\<lambda>i. (p # ps) ! i) [1..<Suc (length ps)] = map (\<lambda>i. (p # ps) ! i) (map Suc [0..<length ps])"
    by (simp only: map_Suc_upt One_nat_def)
  also have "\<dots> = map (\<lambda>i. ps ! i) [0..<length ps]" by simp
  also have "\<dots> = ps" by (rule map_nth)
  finally show ?thesis by (simp add: pts)
qed

lemma paint_reset:
  "pixels (paint cover s [SetGlobalCompositeOperation g]) = pixels s"
  "composite (paint cover s [SetGlobalCompositeOperation g]) = g"
  by (simp_all add: paint_def exec_def)

lemma textContents_append: "textContents (a @ b) = textContents a @ textContents b"
  by (induction a) simp_all

lemma innerHTML_append: "innerHTML (a @ b) = innerHTML a @ innerHTML b"
  by (induction a) simp_all

lemma textContents_nth:
  assumes "i < length ns"
  shows "textContents (take i ns) @ textContent (ns ! i) @ textContents (drop (Suc i) ns) = textContents ns"
proof -
  have "textContents ns = textContents (take i ns @ ns ! i # drop (Suc i) ns)"
    using id_take_nth_drop[OF assms] by simp
  then show ?thesis by (simp add: textContents_append)
qed

lemma extractContents_text:
  "textContents (fst (extractContents ns p off)) @ textContents (snd (extractContents ns p off))
     = textContents ns"
proof (induction ns p off rule: extractContents.induct)
  case (1 ns off)
  have "textContents (take off ns @ drop off ns) = textContents ns" by simp
  then show ?case by (simp only: extractContents.simps fst_conv snd_conv textContents_append)
next
  case (2 ns i p off)
  show ?case
  proof (cases "i < length ns")
    case False
    then show ?thesis by simp
  next
    case True
    show ?thesis
    proof (cases "ns ! i")
      case (Text t)
      have td: "take off t @ drop off t @ r = t @ r" for r
        by (metis append.assoc append_take_drop_id)
      from Text show ?thesis
        using True textContents_nth[OF True]
        by (cases "p = []") (simp_all add: textContents_append td)
    next
      case (Element tag as children)
      from 2[OF True Element]
      have ih: "textContents (fst (extractContents children p off))
          @ textContents (snd (extractContents children p off)) = textContents children" .
      obtain k m where km: "extractContents children p off = (k, m)"
        by (cases "extractContents children p off")
      from ih km have eq: "textContents k @ textContents m = textContents children" by simp
      have "textContents (take i ns) @ textContents k @ textContents m @ textContents (drop (Suc i) ns)
          = textContents (take i ns) @ (textContents k @ textContents m) @ textContents (drop (Suc i) ns)"
        by simp
      also have "\<dots> = textContents (take i ns) @ textContent (ns ! i) @ textContents (drop (Suc i) ns)"
        by (simp only: eq Element textContent.simps)
      also have "\<dots> = textContents ns" by (rule textContents_nth[OF True])
      finally have "textContents (take i ns) @ textContents k @ textContents m @ textContents (drop (Suc i) ns)
          = textContents ns" .
      then show ?thesis
        using True Element km by (simp add: textContents_append)
    qed
  qed
qed

lemma extractContents_top_level_markup:
  "extractContents ns [] off = (kept, fragment) \<Longrightarrow> innerHTML kept @ innerHTML fragment = innerHTML ns"
proof -
  assume "extractContents ns [] off = (kept, fragment)"
  then have "kept = take off ns" "fragment = drop off ns" by simp_all
  then have "innerHTML kept @ innerHTML fragment = innerHTML (take off ns @ drop off ns)"
    by (simp only: innerHTML_append)
  then show ?thesis by simp
qed

lemma js_store_in_range: "i < length xs \<Longrightarrow> js_store xs i v = xs[i := Some v]"
  by (simp add: js_store_def)

lemma split_pages_content:
  assumes "a < length (content n)"
  shows "content (split_pages a k f n) =
     (if a + 1 < length (content n)
      then (content n)[a := Some k, a + 1 := Some (str_concat f (content n ! (a + 1)))]
      else (content n)[a := Some k] @ [Some f])"
  using assms by (simp add: split_pages_def Let_def js_store_in_range)

lemma split_pages_drawingData:
  assumes "a < length (content n)"
  shows "drawingData (split_pages a k f n) =
     (if a + 1 < length (content n) then drawingData n else drawingData n @ [Some []])"
  using assms by (simp add: split_pages_def Let_def js_store_in_range)

lemma split_pages_aligned:
  assumes "a < length (content n)" "pages_aligned n"
  shows "pages_aligned (split_pages a k f n)"
  using assms by (simp add: split_pages_content split_pages_drawingData pages_aligned_def)

lemma autopaginate_split:
  assumes "currentNote s = Some cur"
    and "clientHeight editor < scrollHeight editor"
    and "extractContents (childNodes editor) container off = (kept, fragment)"
    and "\<not> trims_to_empty (innerHTML fragment)"
  shows "autopaginate (Some editor) (Some (container, off)) s =
     s\<lparr>currentNote := Some (split_pages (activePageIndex s) (innerHTML kept) (innerHTML fragment) cur),
       activePageIndex := activePageIndex s + 1\<rparr>"
  using assms by (simp add: autopaginate_def Let_def)

text \<open>
  Claim C4. When the overflowing fragment serialises to the empty string or to whitespace
  only, a run of the pagination effect leaves the application state as it was: no page is
  added, no entry of the content array changes and the active page index stays.
\<close>

theorem autopaginate_blank_fragment_noop:
  "trims_to_empty (innerHTML (snd (extractContents (childNodes editor) container off))) \<Longrightarrow>
   autopaginate (Some editor) (Some (container, off)) s = s"
  by (cases "extractContents (childNodes editor) container off")
     (simp add: autopaginate_def Let_def split: option.splits)

theorem autopaginate_blank_fragment_noop_witness:
  "trims_to_empty (innerHTML (snd (extractContents (childNodes demo_blank_editor) [0] 2)))
   \<and> autopaginate (Some demo_blank_editor) (Some ([0], 2)) demo_single_App = demo_single_App"
proof -
  have h: "trims_to_empty (innerHTML (snd (extractContents (childNodes demo_blank_editor) [0] 2)))"
    by code_simp
  show ?thesis
    using autopaginate_blank_fragment_noop[OF h, of demo_single_App] h by simp
qed

theorem split_inside_element_changes_markup:
  "innerHTML (childNodes demo_bold_editor) = ''<b>ab</b>''
   \<and> map_option content (currentNote (autopaginate (Some demo_bold_editor) (Some ([0, 0], 1)) demo_single_App))
       = Some [Some ''<b>a</b>'', Some ''<b>b</b>'']
   \<and> ''<b>a</b>'' @ ''<b>b</b>'' \<noteq> ''<b>ab</b>''"
  by code_simp

text \<open>
  Claim C3, amended. When the active page overflows and the split point yields a fragment
  that is not blank, one run of the pagination effect writes the truncated markup to the
  active page, prepends the fragment to the next page if there is one and otherwise appends
  one new page with an empty drawing layer, leaves every other page alone and advances the
  active index by one. The text of the truncated page followed by the text of the fragment
  is the text of the page before the split, character for character; the markup strings
  concatenate to the markup before the split when the cut lies between top-level nodes.
\<close>

theorem autopaginate_splits_one_page:
  assumes "currentNote s = Some cur"
    and "activePageIndex s < length (content cur)"
    and "clientHeight editor < scrollHeight editor"
    and "extractContents (childNodes editor) container off = (kept, fragment)"
    and "\<not> trims_to_empty (innerHTML fragment)"
  shows "activePageIndex (autopaginate (Some editor) (Some (container, off)) s) = activePageIndex s + 1
    \<and> map_option content (currentNote (autopaginate (Some editor) (Some (container, off)) s)) =
        Some (if activePageIndex s + 1 < length (content cur)
              then (content cur)[activePageIndex s := Some (innerHTML kept),
                     activePageIndex s + 1 :=
                       Some (str_concat (innerHTML fragment) (content cur ! (activePageIndex s + 1)))]
              else (content cur)[activePageIndex s := Some (innerHTML kept)] @ [Some (innerHTML fragment)])
    \<and> map_option drawingData (currentNote (autopaginate (Some editor) (Some (container, off)) s)) =
        Some (if activePageIndex s + 1 < length (content cur) then drawingData cur
              else drawingData cur @ [Some []])
    \<and> textContents kept @ textContents fragment = textContents (childNodes editor)
    \<and> (container = [] \<longrightarrow> innerHTML kept @ innerHTML fragment = innerHTML (childNodes editor))"
proof -
  have t: "textContents kept @ textContents fragment = textContents (childNodes editor)"
    using extractContents_text[of "childNodes editor" container off] assms(4) by simp
  have m: "container = [] \<longrightarrow> innerHTML kept @ innerHTML fragment = innerHTML (childNodes editor)"
    using extractContents_top_level_markup[of "childNodes editor" off kept fragment] assms(4) by auto
  show ?thesis
    unfolding autopaginate_split[OF assms(1,3,4,5)]
    using t m by (simp add: split_pages_content[OF assms(2)] split_pages_drawingData[OF assms(2)])
qed

theorem autopaginate_splits_one_page_witness:
  "currentNote demo_single_App = Some demo_single_note
   \<and> activePageIndex demo_single_App < length (content demo_single_note)
   \<and> clientHeight demo_bold_editor < scrollHeight demo_bold_editor
   \<and> extractContents (childNodes demo_bold_editor) [0, 0] 1
        = ([Element ''b'' [] [Text ''a'']], [Element ''b'' [] [Text ''b'']])
   \<and> \<not> trims_to_empty (innerHTML [Element ''b'' [] [Text ''b'']])
   \<and> activePageIndex (autopaginate (Some demo_bold_editor) (Some ([0, 0], 1)) demo_single_App) = 1
   \<and> map_option drawingData (currentNote (autopaginate (Some demo_bold_editor) (Some ([0, 0], 1)) demo_single_App))
        = Some [Some [], Some []]
   \<and> textContents [Element ''b'' [] [Text ''a'']] @ textContents [Element ''b'' [] [Text ''b'']]
        = textContents (childNodes demo_bold_editor)"
proof -
  have a: "currentNote demo_single_App = Some demo_single_note" by (simp add: demo_single_App_def)
  have b: "activePageIndex demo_single_App < length (content demo_single_note)"
    by (simp add: demo_single_App_def demo_single_note_def)
  have c: "clientHeight demo_bold_editor < scrollHeight demo_bold_editor"
    by (simp add: demo_bold_editor_def)
  have d: "extractContents (childNodes demo_bold_editor) [0, 0] 1
        = ([Element ''b'' [] [Text ''a'']], [Element ''b'' [] [Text ''b'']])"
    by code_simp
  have e: "\<not> trims_to_empty (innerHTML [Element ''b'' [] [Text ''b'']])" by code_simp
  show ?thesis
    using autopaginate_splits_one_page[OF a b c d e] a b c d e
    by (simp add: demo_single_App_def demo_single_note_def)
qed

lemma migrate_import_object: "is_object x \<Longrightarrow> migrate_import x = Inr (imported_note x)"
  by (cases x) (simp_all add: is_object_def migrate_import_def imported_note_def)

lemma migrate_import_primitive: "\<not> is_object x \<Longrightarrow> migrate_import x = Inl TypeError"
  by (cases x) (simp_all add: is_object_def migrate_import_def)

lemma map_result_migrate_ok:
  "\<forall>x\<in>set xs. is_object x \<Longrightarrow> map_result migrate_import xs = Inr (map imported_note xs)"
  by (induction xs) (simp_all add: migrate_import_object)

lemma map_result_migrate_fails:
  "\<exists>x\<in>set xs. \<not> is_object x \<Longrightarrow> map_result migrate_import xs = Inl TypeError"
proof (induction xs)
  case Nil
  then show ?case by simp
next
  case (Cons x xs)
  show ?case
  proof (cases "is_object x")
    case False
    then show ?thesis by (simp add: migrate_import_primitive)
  next
    case True
    with Cons.prems have "\<exists>y\<in>set xs. \<not> is_object y" by auto
    from Cons.IH[OF this] True show ?thesis by (simp add: migrate_import_object)
  qed
qed

lemma keys_map_update:
  "map fst (map (\<lambda>(k', v'). if k' = k then (k', v) else (k', v')) kvs) = map fst kvs"
  by (induction kvs) auto

lemma set_insert_between:
  "set (takeWhile P xs @ x # dropWhile P xs) = insert x (set xs)"
proof -
  have "set (takeWhile P xs) \<union> set (dropWhile P xs) = set xs"
    by (metis set_append takeWhile_dropWhile_id)
  then show ?thesis by auto
qed

lemma keys_obj_put: "fst ` set (obj_put kvs k v) = insert k (fst ` set kvs)"
proof (cases "k \<in> set (map fst kvs)")
  case True
  then have "set (map fst (obj_put kvs k v)) = set (map fst kvs)"
    by (simp only: obj_put_def if_True keys_map_update)
  with True show ?thesis by auto
next
  case False
  show ?thesis
  proof (cases "is_array_index k")
    case True
    with False have "obj_put kvs k v = takeWhile (index_below k) kvs @ (k, v) # dropWhile (index_below k) kvs"
      by (simp add: obj_put_def)
    then show ?thesis by (simp only: set_insert_between) simp
  next
    case False
    with \<open>k \<notin> set (map fst kvs)\<close> show ?thesis by (simp add: obj_put_def)
  qed
qed

lemma keys_wrap_legacy:
  "k \<noteq> ''content'' \<Longrightarrow> k \<noteq> ''drawingData'' \<Longrightarrow>
   (k \<in> fst ` set (wrap_legacy kvs)) = (k \<in> fst ` set kvs)"
  by (simp add: wrap_legacy_def Let_def keys_obj_put)

lemma in_op_object: "in_op k (JObj kvs) = Inr (k \<in> fst ` set kvs)"
  by (simp add: in_op_def)

lemma show_nat_not_alpha: "c \<in> set (show_nat n) \<Longrightarrow> is_digit c"
  using show_nat_digits[of n] by (simp add: list_all_iff)

lemma id_title_not_index:
  "''id'' \<notin> set (map show_nat [0..<n])" "''title'' \<notin> set (map show_nat [0..<n])"
proof -
  have "\<not> is_digit (CHR ''i'')" "\<not> is_digit (CHR ''t'')" by (simp_all add: is_digit_def)
  then have "''id'' \<noteq> show_nat m" "''title'' \<noteq> show_nat m" for m
    using show_nat_not_alpha[of "CHR ''i''" m] show_nat_not_alpha[of "CHR ''t''" m]
    by (metis list.set_intros(1))+
  then show "''id'' \<notin> set (map show_nat [0..<n])" "''title'' \<notin> set (map show_nat [0..<n])"
    by auto
qed

lemma validate_first_object:
  assumes "is_object x"
  shows "validate_first (imported_note x # ms) =
     (if has_id_title x then Inr (imported_note x # ms) else Inl InvalidNoteFormat)"
proof (cases x)
  case (JObj kvs)
  then show ?thesis
    by (auto simp: validate_first_def imported_note_def in_op_object has_id_title_def keys_wrap_legacy
          split: bool.splits)
next
  case (JArr ys)
  then show ?thesis
    using id_title_not_index[of "length ys"]
    by (simp add: validate_first_def imported_note_def in_op_def has_id_title_def)
qed (use assms in \<open>simp_all add: is_object_def\<close>)

lemma import_payload_array:
  assumes "JSON_parse payload = Some (JArr xs)"
  shows "import_payload payload =
     (if \<exists>x\<in>set xs. \<not> is_object x then Inl TypeError
      else if xs \<noteq> [] \<and> \<not> has_id_title (hd xs) then Inl InvalidNoteFormat
      else Inr (map imported_note xs))"
proof (cases "\<exists>x\<in>set xs. \<not> is_object x")
  case True
  then show ?thesis
    using assms by (simp add: import_payload_def map_result_migrate_fails)
next
  case False
  then have ok: "\<forall>x\<in>set xs. is_object x" by auto
  show ?thesis
  proof (cases xs)
    case Nil
    then show ?thesis
      using assms by (simp add: import_payload_def validate_first_def)
  next
    case (Cons y ys)
    with ok have y: "is_object y" by simp
    have m: "map_result migrate_import (y # ys) = Inr (imported_note y # map imported_note ys)"
      using map_result_migrate_ok[OF ok] Cons by simp
    show ?thesis
      using assms False Cons
      by (simp add: import_payload_def m validate_first_object[OF y] del: map_result.simps)
  qed
qed

lemma import_payload_not_array:
  "JSON_parse payload = None \<Longrightarrow> import_payload payload = Inl SyntaxError"
  "JSON_parse payload = Some v \<Longrightarrow> \<forall>ys. v \<noteq> JArr ys \<Longrightarrow> import_payload payload = Inl NotAnArray"
  by (auto simp: import_payload_def split: json.splits)

text \<open>
  Claim C2, amended. Import rejects, with the invalid-file alert and without touching the
  Collection, a payload that is not valid JSON, is not a JSON array, contains an element
  that is not an object (null, a boolean, a number or a string), or whose first element
  lacks the \<open>id\<close> key or lacks the \<open>title\<close> key. Every other array payload is
  accepted: its migrated elements replace the Collection, and an empty array is replaced
  by one fresh note.
\<close>

theorem importNotes_accepts_exactly:
  "(JSON_parse payload = Some (JArr xs) \<and> (\<forall>x\<in>set xs. is_object x)
      \<and> (xs = [] \<or> has_id_title (hd xs)) \<longrightarrow>
      importNotes now isoString (Some payload) s =
        ((if xs = []
          then s\<lparr>notes' := [note_json (createNewNote now isoString)],
                 currentNote := Some (note_json (createNewNote now isoString))\<rparr>
          else s\<lparr>notes' := map imported_note xs, currentNote := Some (imported_note (hd xs))\<rparr>)
         \<lparr>activePageIndex := 0\<rparr>,
         Some (ImportedCount (length xs))))
   \<and> (JSON_parse payload = None
       \<or> (\<exists>v. JSON_parse payload = Some v \<and> (\<forall>ys. v \<noteq> JArr ys))
       \<or> (JSON_parse payload = Some (JArr xs)
           \<and> ((\<exists>x\<in>set xs. \<not> is_object x) \<or> (xs \<noteq> [] \<and> \<not> has_id_title (hd xs)))) \<longrightarrow>
      importNotes now isoString (Some payload) s = (s, Some InvalidFile))"
proof (intro conjI impI)
  assume h: "JSON_parse payload = Some (JArr xs) \<and> (\<forall>x\<in>set xs. is_object x)
      \<and> (xs = [] \<or> has_id_title (hd xs))"
  then have "import_payload payload = Inr (map imported_note xs)"
    using import_payload_array[of payload xs] by auto
  then show "importNotes now isoString (Some payload) s =
        ((if xs = []
          then s\<lparr>notes' := [note_json (createNewNote now isoString)],
                 currentNote := Some (note_json (createNewNote now isoString))\<rparr>
          else s\<lparr>notes' := map imported_note xs, currentNote := Some (imported_note (hd xs))\<rparr>)
         \<lparr>activePageIndex := 0\<rparr>,
         Some (ImportedCount (length xs)))"
    by (simp add: importNotes_def Let_def hd_map)
next
  assume "JSON_parse payload = None
       \<or> (\<exists>v. JSON_parse payload = Some v \<and> (\<forall>ys. v \<noteq> JArr ys))
       \<or> (JSON_parse payload = Some (JArr xs)
           \<and> ((\<exists>x\<in>set xs. \<not> is_object x) \<or> (xs \<noteq> [] \<and> \<not> has_id_title (hd xs))))"
  then have "\<exists>e. import_payload payload = Inl e"
    using import_payload_not_array[of payload] import_payload_array[of payload xs] by auto
  then show "importNotes now isoString (Some payload) s = (s, Some InvalidFile)"
    by (auto simp: importNotes_def)
qed

theorem importNotes_accepts_exactly_witness:
  \<open>JSON_parse demo_backup = Some (JArr [JObj [(''id'', JStr ''1''), (''title'', JStr ''t''),
        (''date'', JStr ''2024-01-07''), (''serviceType'', JStr ''x''), (''passage'', JStr []),
        (''content'', JArr [JStr ''a'', JStr ''b'']),
        (''styles'', JObj [(''fontSize'', JStr ''16px''), (''fontFamily'', JStr ''Noto Sans KR''),
                          (''fontWeight'', JStr ''400'')]),
        (''drawingData'', JArr [JStr ''[]''])]])
   \<and> notes' (fst (importNotes 42 ''2024-01-07T09:30:00.000Z'' (Some demo_backup) demo_json_App))
       = [JObj [(''id'', JStr ''1''), (''title'', JStr ''t''),
        (''date'', JStr ''2024-01-07''), (''serviceType'', JStr ''x''), (''passage'', JStr []),
        (''content'', JArr [JStr ''a'', JStr ''b'']),
        (''styles'', JObj [(''fontSize'', JStr ''16px''), (''fontFamily'', JStr ''Noto Sans KR''),
                          (''fontWeight'', JStr ''400'')]),
        (''drawingData'', JArr [JStr ''[]''])]]
   \<and> snd (importNotes 42 ''2024-01-07T09:30:00.000Z'' (Some demo_backup) demo_json_App)
       = Some (ImportedCount 1)
   \<and> JSON_parse ''{"id":"1","title":"t"}'' = Some (JObj [(''id'', JStr ''1''), (''title'', JStr ''t'')])
   \<and> importNotes 42 ''2024-01-07T09:30:00.000Z'' (Some ''{"id":"1","title":"t"}'') demo_json_App
       = (demo_json_App, Some InvalidFile)\<close>
proof -
  let ?n = "JObj [(''id'', JStr ''1''), (''title'', JStr ''t''),
        (''date'', JStr ''2024-01-07''), (''serviceType'', JStr ''x''), (''passage'', JStr []),
        (''content'', JArr [JStr ''a'', JStr ''b'']),
        (''styles'', JObj [(''fontSize'', JStr ''16px''), (''fontFamily'', JStr ''Noto Sans KR''),
                          (''fontWeight'', JStr ''400'')]),
        (''drawingData'', JArr [JStr ''[]''])]"
  have p: "JSON_parse demo_backup = Some (JArr [?n])" by code_simp
  have o: "\<forall>x\<in>set [?n]. is_object x" by (simp add: is_object_def)
  have t: "has_id_title (hd [?n])" by (simp add: has_id_title_def)
  have m: "imported_note ?n = ?n" by code_simp
  have q: \<open>JSON_parse ''{"id":"1","title":"t"}'' = Some (JObj [(''id'', JStr ''1''), (''title'', JStr ''t'')])\<close>
    by code_simp
  show ?thesis
    using importNotes_accepts_exactly[of demo_backup "[?n]" 42 "''2024-01-07T09:30:00.000Z''" demo_json_App]
      importNotes_accepts_exactly[of \<open>''{"id":"1","title":"t"}''\<close> "[]" 42 "''2024-01-07T09:30:00.000Z''" demo_json_App]
      p o t q
    by (simp add: m)
qed

theorem import_rejects_array_with_null_element:
  \<open>JSON_parse ''[{"id":"1","title":"t"},null]''
     = Some (JArr [JObj [(''id'', JStr ''1''), (''title'', JStr ''t'')], JNull])
   \<and> has_id_title (JObj [(''id'', JStr ''1''), (''title'', JStr ''t'')])
   \<and> importNotes 42 ''2024-01-07T09:30:00.000Z'' (Some ''[{"id":"1","title":"t"},null]'') demo_json_App
       = (demo_json_App, Some InvalidFile)
   \<and> importNotes 42 ''2024-01-07T09:30:00.000Z'' (Some ''[{"id":"1"}]'') demo_json_App
       = (demo_json_App, Some InvalidFile)\<close>
  by code_simp



text \<open>
  Claim C1. Every note of the Collection should keep as many drawing entries as pages, at
  least one, after every mutation. Import breaks this: it wraps legacy string fields but,
  unlike the migration on load, does not reconcile the length of \<open>drawingData\<close> with the
  length of \<open>content\<close>. The backup below has two pages and one drawing entry; import
  stores it as it is, while loading the same document pads the drawing entries to two.
\<close>

theorem import_skips_drawing_reconciliation:
  \<open>snd (importNotes 42 ''2024-01-07T09:30:00.000Z'' (Some demo_backup) demo_json_App) = Some (ImportedCount 1)
   \<and> property (hd (notes' (fst (importNotes 42 ''2024-01-07T09:30:00.000Z'' (Some demo_backup) demo_json_App)))) ''content''
       = Some (JArr [JStr ''a'', JStr ''b''])
   \<and> property (hd (notes' (fst (importNotes 42 ''2024-01-07T09:30:00.000Z'' (Some demo_backup) demo_json_App)))) ''drawingData''
       = Some (JArr [JStr ''[]''])
   \<and> \<not> pages_aligned_json (hd (notes' (fst (importNotes 42 ''2024-01-07T09:30:00.000Z'' (Some demo_backup) demo_json_App))))
   \<and> map_result migrate_load (case JSON_parse demo_backup of Some (JArr xs) \<Rightarrow> xs | _ \<Rightarrow> [])
       = Inr [JObj [(''id'', JStr ''1''), (''title'', JStr ''t''),
        (''date'', JStr ''2024-01-07''), (''serviceType'', JStr ''x''), (''passage'', JStr []),
        (''content'', JArr [JStr ''a'', JStr ''b'']),
        (''styles'', JObj [(''fontSize'', JStr ''16px''), (''fontFamily'', JStr ''Noto Sans KR''),
                          (''fontWeight'', JStr ''400'')]),
        (''drawingData'', JArr [JStr ''[]'', JStr []])]]\<close>
  by code_simp

lemma createNewNote_aligned: "pages_aligned (createNewNote now isoString)"
  by (simp add: pages_aligned_def createNewNote_def)

lemma pages_aligned_note_json: "pages_aligned_json (note_json n) = pages_aligned n"
  by (simp add: pages_aligned_json_def note_json_def property_def pages_aligned_def)

lemma replace_note_aligned:
  "\<forall>n\<in>set ns. pages_aligned n \<Longrightarrow> pages_aligned u \<Longrightarrow>
   \<forall>n\<in>set (replace_note cur u ns). pages_aligned n"
  by (auto simp: replace_note_def)

lemma handleContentChange_aligned:
  "aligned_App s \<Longrightarrow> aligned_App (handleContentChange (activePageIndex s) v s)"
  by (auto simp: aligned_App_def handleContentChange_def Let_def js_store_in_range
        pages_aligned_def replace_note_def split: option.splits)

lemma handleDrawingChange_aligned:
  "aligned_App s \<Longrightarrow> aligned_App (handleDrawingChange (activePageIndex s) v s)"
  by (auto simp: aligned_App_def handleDrawingChange_def Let_def js_store_in_range
        pages_aligned_def replace_note_def split: option.splits)

lemma clearDrawing_aligned:
  "aligned_App s \<Longrightarrow> aligned_App (clearDrawing confirmed s)"
  by (auto simp: aligned_App_def clearDrawing_def Let_def js_store_in_range
        pages_aligned_def replace_note_def split: option.splits)

lemma handleNewNote_aligned:
  "aligned_App s \<Longrightarrow> aligned_App (handleNewNote now isoString s)"
  using createNewNote_aligned[of now isoString]
  by (auto simp: aligned_App_def handleNewNote_def Let_def pages_aligned_def)

lemma handleSelectNote_aligned:
  "aligned_App s \<Longrightarrow> aligned_App (handleSelectNote noteId s)"
proof -
  assume a: "aligned_App s"
  show ?thesis
  proof (cases "find (\<lambda>n. id' n = noteId) (notes' s)")
    case None
    then show ?thesis using a by (simp add: handleSelectNote_def)
  next
    case (Some n)
    then have "n \<in> set (notes' s)" by (auto simp: find_Some_iff)
    then have "pages_aligned n" using a by (simp add: aligned_App_def)
    then show ?thesis
      using a Some by (auto simp: handleSelectNote_def aligned_App_def pages_aligned_def)
  qed
qed

lemma autopaginate_aligned:
  "aligned_App s \<Longrightarrow> aligned_App (autopaginate editorRef splitRange s)"
proof -
  assume a: "aligned_App s"
  have step: "aligned_App (s\<lparr>currentNote := Some (split_pages (activePageIndex s) k f cur),
        activePageIndex := activePageIndex s + 1\<rparr>)"
    if c: "currentNote s = Some cur" for cur k f
  proof -
    from a c have al: "pages_aligned cur" and i: "activePageIndex s < length (content cur)"
      by (simp_all add: aligned_App_def)
    have "pages_aligned (split_pages (activePageIndex s) k f cur)"
      by (rule split_pages_aligned[OF i al])
    moreover have "activePageIndex s + 1 < length (content (split_pages (activePageIndex s) k f cur))"
      using i by (simp add: split_pages_content)
    ultimately show ?thesis using a by (simp add: aligned_App_def)
  qed
  show ?thesis
    using a step
    by (auto simp: autopaginate_def Let_def split: option.splits prod.splits)
qed

lemma map_of_insert_between_same:
  "k \<notin> fst ` set kvs \<Longrightarrow> map_of (takeWhile P kvs @ (k, v) # dropWhile P kvs) k = Some v"
proof -
  assume "k \<notin> fst ` set kvs"
  then have "k \<notin> fst ` set (takeWhile P kvs)" by (auto dest: set_takeWhileD)
  then have "map_of (takeWhile P kvs) k = None" by (simp add: map_of_eq_None_iff)
  then show ?thesis by (simp add: map_add_def)
qed

lemma map_of_insert_between_other:
  "k' \<noteq> k \<Longrightarrow> map_of (takeWhile P kvs @ (k, v) # dropWhile P kvs) k' = map_of kvs k'"
proof -
  assume n: "k' \<noteq> k"
  have "map_of kvs k' = map_of (takeWhile P kvs @ dropWhile P kvs) k'" by simp
  also have "\<dots> = map_of (takeWhile P kvs @ (k, v) # dropWhile P kvs) k'"
    using n by (simp only: map_of_append) (simp add: map_add_def split: option.splits)
  finally show ?thesis by simp
qed

lemma map_of_obj_put_same: "map_of (obj_put kvs k v) k = Some v"
proof (cases "k \<in> set (map fst kvs)")
  case True
  have "k \<in> set (map fst xs) \<Longrightarrow>
      map_of (map (\<lambda>(k', v'). if k' = k then (k', v) else (k', v')) xs) k = Some v" for xs
    by (induction xs) auto
  with True show ?thesis by (simp add: obj_put_def)
next
  case False
  then have nk: "map_of kvs k = None" "k \<notin> fst ` set kvs" by (simp_all add: map_of_eq_None_iff)
  show ?thesis
  proof (cases "is_array_index k")
    case True
    with False show ?thesis
      by (simp add: obj_put_def map_of_insert_between_same[OF nk(2)] del: map_of_append)
  next
    case False
    with \<open>k \<notin> set (map fst kvs)\<close> nk show ?thesis by (simp add: obj_put_def map_add_def)
  qed
qed

lemma map_of_obj_put_other: "k' \<noteq> k \<Longrightarrow> map_of (obj_put kvs k v) k' = map_of kvs k'"
proof (cases "k \<in> set (map fst kvs)")
  case True
  assume n: "k' \<noteq> k"
  have "map_of (map (\<lambda>(a, b). if a = k then (a, v) else (a, b)) xs) k' = map_of xs k'" for xs
    using n by (induction xs) auto
  with True show ?thesis by (simp add: obj_put_def)
next
  case False
  assume n: "k' \<noteq> k"
  show ?thesis
  proof (cases "is_array_index k")
    case True
    with False show ?thesis
      by (simp add: obj_put_def map_of_insert_between_other[OF n] del: map_of_append)
  next
    case False
    with \<open>k \<notin> set (map fst kvs)\<close> n show ?thesis
      by (simp add: obj_put_def map_add_def split: option.splits)
  qed
qed

lemma reconcile_pads:
  assumes "map_of kvs ''content'' = Some (JArr cs)"
    and "map_of kvs ''drawingData'' = None \<or> (\<exists>ds. map_of kvs ''drawingData'' = Some (JArr ds))"
  shows "\<exists>kvs' ds'. reconcile kvs = Inr kvs' \<and> map_of kvs' ''content'' = Some (JArr cs)
           \<and> map_of kvs' ''drawingData'' = Some (JArr ds') \<and> length ds' = length cs"
proof -
  have lb: "loop_bound (property (JArr cs) ''length'') = Inr (length cs)"
    by (simp add: loop_bound_def property_def)
  from assms(2) show ?thesis
  proof
    assume d: "map_of kvs ''drawingData'' = None"
    then show ?thesis
      using assms(1)
      by (simp add: reconcile_def Let_def truthy_opt_def lb map_of_obj_put_same map_of_obj_put_other)
  next
    assume "\<exists>ds. map_of kvs ''drawingData'' = Some (JArr ds)"
    then obtain ds where d: "map_of kvs ''drawingData'' = Some (JArr ds)" by blast
    show ?thesis
    proof (cases "length ds = length cs")
      case True
      then show ?thesis
        using assms(1) d
        by (simp add: reconcile_def Let_def truthy_opt_def truthy_def strict_eq_def property_def)
    next
      case False
      then show ?thesis
        using assms(1) d
        by (simp add: reconcile_def Let_def truthy_opt_def truthy_def strict_eq_def lb
              map_of_obj_put_same map_of_obj_put_other)
           (simp add: property_def)
    qed
  qed
qed

lemma migrate_load_aligns_arrays:
  assumes "map_of kvs ''content'' = Some (JArr cs)" "cs \<noteq> []"
    and "map_of kvs ''drawingData'' = None \<or> (\<exists>ds. map_of kvs ''drawingData'' = Some (JArr ds))"
  shows "\<exists>n. migrate_load (JObj kvs) = Inr n \<and> pages_aligned_json n"
proof -
  have w: "wrap_legacy kvs = kvs"
    using assms(1) by (simp add: wrap_legacy_def is_string_def truthy_opt_def truthy_def)
  obtain kvs' ds' where r: "reconcile kvs = Inr kvs'" "map_of kvs' ''content'' = Some (JArr cs)"
      "map_of kvs' ''drawingData'' = Some (JArr ds')" "length ds' = length cs"
    using reconcile_pads[OF assms(1,3)] by blast
  then have "pages_aligned_json (JObj kvs')"
    using assms(2) by (cases cs) (simp_all add: pages_aligned_json_def property_def)
  then show ?thesis by (simp add: migrate_load_def w r(1))
qed

lemma migrate_load_wraps_legacy_string:
  assumes "map_of kvs ''content'' = None \<or> (\<exists>t. map_of kvs ''content'' = Some (JStr t))"
  shows "\<exists>n. migrate_load (JObj kvs) = Inr n \<and> pages_aligned_json n"
proof -
  define c where "c = JArr [js_or (map_of kvs ''content'') (JStr [])]"
  define kvs1 where "kvs1 = obj_put kvs ''content'' c"
  define d where "d = JArr [js_or (map_of kvs1 ''drawingData'') (JStr [])]"
  define kvs2 where "kvs2 = obj_put kvs1 ''drawingData'' d"
  have w: "wrap_legacy kvs = kvs2"
    using assms
    by (auto simp: wrap_legacy_def Let_def kvs2_def d_def kvs1_def c_def is_string_def truthy_opt_def)
  have c2: "map_of kvs2 ''content'' = Some c"
    by (simp add: kvs2_def kvs1_def map_of_obj_put_other map_of_obj_put_same)
  have d2: "map_of kvs2 ''drawingData'' = Some d"
    by (simp add: kvs2_def map_of_obj_put_same)
  have "reconcile kvs2 = Inr kvs2"
    by (simp add: reconcile_def Let_def c2 d2 c_def d_def truthy_opt_def truthy_def strict_eq_def
          property_def)
  moreover have "pages_aligned_json (JObj kvs2)"
    by (simp add: pages_aligned_json_def property_def c2 d2 c_def d_def)
  ultimately show ?thesis by (simp add: migrate_load_def w)
qed

lemma load_keeps_zero_pages:
  \<open>map_result migrate_load [JObj [(''id'', JStr ''1''), (''title'', JStr ''t''), (''content'', JArr [])]]
     = Inr [JObj [(''id'', JStr ''1''), (''title'', JStr ''t''), (''content'', JArr []),
                  (''drawingData'', JArr [])]]\<close>
  by code_simp

lemma gesture_three_points:
  "(case startDrawing (100, 50) (110, 70) (demo_page\<lparr>isDrawing := False\<rparr>) of
      Inl e \<Rightarrow> None
    | Inr p1 \<Rightarrow>
       (case draw (100, 50) (111, 72) p1 of
          Inl e \<Rightarrow> None
        | Inr p2 \<Rightarrow>
           (case draw (100, 50) (113, 75) p2 of
              Inl e \<Rightarrow> None
            | Inr p3 \<Rightarrow> map_option (\<lambda>(i, d). (i, deserialize d)) (snd (stopDrawing p3)))))
   = Some (1, JArr [stroke_json pen [(10, 20), (11, 22), (13, 25)] ''#dc3545'' 5])"
  by code_simp

lemma point_args_num_point:
  "i < length pts \<Longrightarrow>
   point_args (JArr (map num_point pts)) i = Inr (Some (num (fst (pts ! i))), Some (num (snd (pts ! i))))"
  by (simp add: point_args_def index_def num_point_def property_def)

lemma lineTo_loop_num_points:
  "\<forall>i\<in>set js. i < length pts \<Longrightarrow>
   lineTo_loop (JArr (map num_point pts)) js =
     (map (\<lambda>i. LineTo (Some (num (fst (pts ! i)))) (Some (num (snd (pts ! i))))) js, None)"
  by (induction js) (simp_all add: point_args_num_point)

lemma path_cmds_num_points:
  assumes "pts \<noteq> []"
  shows "path_cmds (JArr (map num_point pts)) =
     (MoveTo (Some (num (fst (pts ! 0)))) (Some (num (snd (pts ! 0)))) #
        map (\<lambda>i. LineTo (Some (num (fst (pts ! i)))) (Some (num (snd (pts ! i))))) [1..<length pts]
        @ [Stroke], None)"
proof -
  have b: "loop_bound (property (JArr (map num_point pts)) ''length'') = Inr (length pts)"
    by (simp add: loop_bound_def property_def)
  have l: "lineTo_loop (JArr (map num_point pts)) [Suc 0..<length pts] =
     (map (\<lambda>i. LineTo (Some (num (fst (pts ! i)))) (Some (num (snd (pts ! i))))) [Suc 0..<length pts], None)"
    by (rule lineTo_loop_num_points) simp
  have pa: "point_args (JArr (map num_point pts)) 0 =
      Inr (Some (num (fst (pts ! 0))), Some (num (snd (pts ! 0))))"
    using assms by (simp add: point_args_num_point)
  show ?thesis
    unfolding path_cmds_def pa b by (simp add: l)
qed

lemma line_cmds_num_points:
  assumes "map_of kvs ''points'' = Some (JArr (map num_point pts))" "2 \<le> length pts"
  shows "line_cmds (JObj kvs) =
     (style_cmds (JObj kvs) @
        MoveTo (Some (num (fst (pts ! 0)))) (Some (num (snd (pts ! 0)))) #
        map (\<lambda>i. LineTo (Some (num (fst (pts ! i)))) (Some (num (snd (pts ! i))))) [1..<length pts]
        @ [Stroke], None)"
proof -
  have ne: "pts \<noteq> []" using assms by auto
  have p: "property (JObj kvs) ''points'' = Some (JArr (map num_point pts))"
    using assms(1) by (simp add: property_def)
  have tr: "truthy (JObj kvs)" "truthy (JArr (map num_point pts))"
    by (simp_all add: truthy_def)
  have lt: "js_lt (property (JArr (map num_point pts)) ''length'') 2 = Inr False"
    using assms by (simp add: js_lt_length)
  show ?thesis
    unfolding line_cmds_def p by (simp add: tr lt path_cmds_num_points[OF ne])
qed

lemma exec_lineTos_num:
  "foldl (exec cover) s (map (\<lambda>i. LineTo (Some (num (fst (pts ! i)))) (Some (num (snd (pts ! i))))) js)
   = s\<lparr>path := path s @ map (\<lambda>i. pts ! i) js\<rparr>"
  by (induction js arbitrary: s) (simp_all add: exec_def num_def)

lemma paint_eraser_line:
  assumes t: "map_of kvs ''tool'' = Some (JStr ''eraser'')"
    and p: "map_of kvs ''points'' = Some (JArr (map num_point pts))"
    and l: "2 \<le> length pts"
    and w: "map_of kvs ''thickness'' = Some (JNum m k)" "0 < m"
    and c: "cover pts (m, k) px"
  shows "pixels (paint cover s (fst (line_cmds (JObj kvs)))) px = None"
proof -
  have ne: "pts \<noteq> []" using l by auto
  have st: "style_cmds (JObj kvs) =
     [SetGlobalCompositeOperation ''destination-out'',
      SetStrokeStyle (Some (JStr ''rgba(0,0,0,1)'')),
      SetLineWidth (Some (JNum m k)), SetLineCap ''round'', SetLineJoin ''round'', BeginPath]"
    by (simp add: style_cmds_eraser[OF t] w)
  define s1 where "s1 = s\<lparr>composite := ''destination-out'', style := ''rgba(0,0,0,1)'',
      lineWidth := (m, k), path := [pts ! 0]\<rparr>"
  define X where "X = style_cmds (JObj kvs)
      @ [MoveTo (Some (num (fst (pts ! 0)))) (Some (num (snd (pts ! 0))))]"
  define Y where "Y = map (\<lambda>i. LineTo (Some (num (fst (pts ! i)))) (Some (num (snd (pts ! i))))) [1..<length pts]"
  have a: "paint cover s X = s1"
    using w(2) by (simp add: X_def st paint_def exec_def s1_def num_def)
  have b: "paint cover s1 Y = s1\<lparr>path := pts\<rparr>"
  proof -
    have "pts ! 0 # map (\<lambda>i. pts ! i) [1..<length pts] = pts"
      by (rule nth_tail_indices[OF ne])
    then show ?thesis
      unfolding paint_def Y_def exec_lineTos_num by (simp add: s1_def)
  qed
  have "fst (line_cmds (JObj kvs)) = X @ Y @ [Stroke]"
    by (simp add: line_cmds_num_points[OF p l] X_def Y_def)
  then have "paint cover s (fst (line_cmds (JObj kvs)))
     = paint cover (paint cover (paint cover s X) Y) [Stroke]"
    by (simp only: paint_append)
  also have "\<dots> = paint cover (s1\<lparr>path := pts\<rparr>) [Stroke]"
    by (simp only: a b)
  finally show ?thesis
    using c by (simp add: paint_def exec_def s1_def)
qed

lemma drawOnCanvas_array:
  assumes "JSON_parse d = Some (JArr ls)"
  shows "drawOnCanvas True w h (Some d) =
     (case snd (forEach_line ls) of
        None \<Rightarrow> (ClearRect 0 0 w h # fst (forEach_line ls) @ [SetGlobalCompositeOperation ''source-over''], [])
      | Some e \<Rightarrow> (ClearRect 0 0 w h # fst (forEach_line ls), [e]))"
proof -
  have "d \<noteq> []" using assms JSON_parse_empty by auto
  then show ?thesis
    using assms by (cases "forEach_line ls") (simp add: drawOnCanvas_def split: option.splits)
qed

theorem eraser_stroke_with_null_point_skips_reset:
  \<open>JSON_parse demo_broken_eraser =
     Some (JArr [stroke_json pen [(1, 1), (5, 5)] ''#dc3545'' 5,
                 JObj [(''tool'', JStr ''eraser''),
                       (''points'', JArr [point_json (1, 1), point_json (5, 5), JNull]),
                       (''color'', JStr ''#dc3545''), (''thickness'', JInt 10)]])
   \<and> drawOnCanvas True 300 400 (Some demo_broken_eraser) =
       ([ClearRect 0 0 300 400,
         SetGlobalCompositeOperation ''source-over'', SetStrokeStyle (Some (JStr ''#dc3545'')),
         SetLineWidth (Some (JInt 5)), SetLineCap ''round'', SetLineJoin ''round'', BeginPath,
         MoveTo (Some (JInt 1)) (Some (JInt 1)), LineTo (Some (JInt 5)) (Some (JInt 5)), Stroke,
         SetGlobalCompositeOperation ''destination-out'', SetStrokeStyle (Some (JStr ''rgba(0,0,0,1)'')),
         SetLineWidth (Some (JInt 10)), SetLineCap ''round'', SetLineJoin ''round'', BeginPath,
         MoveTo (Some (JInt 1)) (Some (JInt 1)), LineTo (Some (JInt 5)) (Some (JInt 5))],
        [TypeError])
   \<and> composite (paint vertex_cover demo_surface (fst (drawOnCanvas True 300 400 (Some demo_broken_eraser))))
       = ''destination-out''
   \<and> composite (paint vertex_cover demo_surface (fst (drawOnCanvas True 300 400 (Some demo_broken_eraser))))
       \<noteq> ''source-over''
   \<and> vertex_cover (map pixel_point [(1, 1), (5, 5)]) (10, 0) (5, 5)
   \<and> pixels (paint vertex_cover demo_surface (fst (drawOnCanvas True 300 400 (Some demo_broken_eraser)))) (5, 5)
       = Some ''#dc3545''\<close>
  by code_simp

text \<open>
  Claim C8, amended. Every stroke whose tool is \<open>eraser\<close> is drawn in \<open>destination-out\<close>
  mode with an opaque stroke style, whatever colour the stroke stores. Rendering is
  best effort: a stroke that throws (a \<open>null\<close> point, say) ends the rendering there, the
  exception is logged, and the commands issued are those up to the exception, without the
  final reset of the compositing mode. When no stroke throws, the renderer ends by
  resetting the compositing mode to \<open>source-over\<close>, and the pixels covered by a final
  eraser stroke with at least two points and a positive thickness are transparent,
  whatever was drawn there before: a pen stroke followed by an eraser stroke over the same
  pixels leaves them transparent. Pixel coverage of a stroked path is supplied by the
  canvas and is a parameter here.
\<close>

theorem eraser_composites_destination_out:
  "(map_of kvs ''tool'' = Some (JStr ''eraser'') \<longrightarrow>
      style_cmds (JObj kvs) =
        [SetGlobalCompositeOperation ''destination-out'',
         SetStrokeStyle (Some (JStr ''rgba(0,0,0,1)'')),
         SetLineWidth (map_of kvs ''thickness''), SetLineCap ''round'', SetLineJoin ''round'',
         BeginPath])
   \<and> (JSON_parse d = Some (JArr ls) \<longrightarrow>
        drawOnCanvas True w h (Some d) =
          (case snd (forEach_line ls) of
             None \<Rightarrow> (ClearRect 0 0 w h # fst (forEach_line ls)
                        @ [SetGlobalCompositeOperation ''source-over''], [])
           | Some e \<Rightarrow> (ClearRect 0 0 w h # fst (forEach_line ls), [e]))
        \<and> (snd (forEach_line ls) = None \<longrightarrow>
             composite (paint cover s (fst (drawOnCanvas True w h (Some d)))) = ''source-over''))
   \<and> (JSON_parse d' = Some (JArr (ls' @ [JObj ekvs])) \<and> snd (forEach_line ls') = None
        \<and> map_of ekvs ''tool'' = Some (JStr ''eraser'')
        \<and> map_of ekvs ''points'' = Some (JArr (map num_point pts)) \<and> 2 \<le> length pts
        \<and> map_of ekvs ''thickness'' = Some (JNum m k) \<and> 0 < m \<longrightarrow>
      (\<forall>px. cover pts (m, k) px \<longrightarrow>
         pixels (paint cover s (fst (drawOnCanvas True w h (Some d')))) px = None)
      \<and> composite (paint cover s (fst (drawOnCanvas True w h (Some d')))) = ''source-over''
      \<and> snd (drawOnCanvas True w h (Some d')) = [])"
proof (intro conjI impI allI)
  assume "map_of kvs ''tool'' = Some (JStr ''eraser'')"
  then show "style_cmds (JObj kvs) =
        [SetGlobalCompositeOperation ''destination-out'',
         SetStrokeStyle (Some (JStr ''rgba(0,0,0,1)'')),
         SetLineWidth (map_of kvs ''thickness''), SetLineCap ''round'', SetLineJoin ''round'',
         BeginPath]"
    by (rule style_cmds_eraser)
next
  assume p: "JSON_parse d = Some (JArr ls)"
  show "drawOnCanvas True w h (Some d) =
          (case snd (forEach_line ls) of
             None \<Rightarrow> (ClearRect 0 0 w h # fst (forEach_line ls)
                        @ [SetGlobalCompositeOperation ''source-over''], [])
           | Some e \<Rightarrow> (ClearRect 0 0 w h # fst (forEach_line ls), [e]))"
    by (rule drawOnCanvas_array[OF p])
  assume n: "snd (forEach_line ls) = None"
  have "fst (drawOnCanvas True w h (Some d)) =
      (ClearRect 0 0 w h # fst (forEach_line ls)) @ [SetGlobalCompositeOperation ''source-over'']"
    by (simp add: drawOnCanvas_array[OF p] n)
  then show "composite (paint cover s (fst (drawOnCanvas True w h (Some d)))) = ''source-over''"
    by (simp only: paint_append paint_reset)
next
  assume h: "JSON_parse d' = Some (JArr (ls' @ [JObj ekvs])) \<and> snd (forEach_line ls') = None
        \<and> map_of ekvs ''tool'' = Some (JStr ''eraser'')
        \<and> map_of ekvs ''points'' = Some (JArr (map num_point pts)) \<and> 2 \<le> length pts
        \<and> map_of ekvs ''thickness'' = Some (JNum m k) \<and> 0 < m"
  let ?e = "JObj ekvs"
  have lc: "snd (line_cmds ?e) = None"
    using h line_cmds_num_points[of ekvs pts] by simp
  have fe: "forEach_line (ls' @ [?e]) = (fst (forEach_line ls') @ fst (line_cmds ?e), None)"
    using forEach_line_append[of ls' ?e] h lc by simp
  have dc: "drawOnCanvas True w h (Some d') =
     (ClearRect 0 0 w h # (fst (forEach_line ls') @ fst (line_cmds ?e))
        @ [SetGlobalCompositeOperation ''source-over''], [])"
    using drawOnCanvas_array[of d' "ls' @ [?e]" w h] h fe by simp
  have split: "fst (drawOnCanvas True w h (Some d')) =
     ((ClearRect 0 0 w h # fst (forEach_line ls')) @ fst (line_cmds ?e))
       @ [SetGlobalCompositeOperation ''source-over'']"
    by (simp add: dc)
  show "composite (paint cover s (fst (drawOnCanvas True w h (Some d')))) = ''source-over''"
    by (simp only: split paint_append paint_reset)
  show "snd (drawOnCanvas True w h (Some d')) = []"
    by (simp add: dc)
  fix px assume "cover pts (m, k) px"
  then show "pixels (paint cover s (fst (drawOnCanvas True w h (Some d')))) px = None"
    using h by (simp only: split paint_append paint_reset paint_eraser_line)
qed

theorem eraser_composites_destination_out_witness:
  "map_of [(''tool'', JStr ''eraser''), (''points'', JArr (map num_point [((1, 0), (1, 0)), ((5, 0), (5, 0))])),
           (''color'', JStr ''#dc3545''), (''thickness'', JInt 10)] ''tool'' = Some (JStr ''eraser'')
   \<and> style_cmds (JObj [(''tool'', JStr ''eraser''),
                       (''points'', JArr (map num_point [((1, 0), (1, 0)), ((5, 0), (5, 0))])),
                       (''color'', JStr ''#dc3545''), (''thickness'', JInt 10)]) =
        [SetGlobalCompositeOperation ''destination-out'',
         SetStrokeStyle (Some (JStr ''rgba(0,0,0,1)'')),
         SetLineWidth (Some (JInt 10)), SetLineCap ''round'', SetLineJoin ''round'', BeginPath]
   \<and> JSON_parse demo_drawing = Some (JArr ([stroke_json pen [(1, 1), (5, 5)] ''#dc3545'' 5]
          @ [JObj [(''tool'', JStr ''eraser''),
                   (''points'', JArr (map num_point [((1, 0), (1, 0)), ((5, 0), (5, 0))])),
                   (''color'', JStr ''#dc3545''), (''thickness'', JInt 10)]]))
   \<and> snd (forEach_line [stroke_json pen [(1, 1), (5, 5)] ''#dc3545'' 5]) = None
   \<and> vertex_cover [((1, 0), (1, 0)), ((5, 0), (5, 0))] (10, 0) (5, 5)
   \<and> pixels (paint vertex_cover demo_surface (fst (drawOnCanvas True 300 400 (Some demo_drawing)))) (5, 5) = None
   \<and> composite (paint vertex_cover demo_surface (fst (drawOnCanvas True 300 400 (Some demo_drawing)))) = ''source-over''
   \<and> snd (drawOnCanvas True 300 400 (Some demo_drawing)) = []
   \<and> snd (forEach_line [stroke_json pen [(1, 1), (5, 5)] ''#dc3545'' 5,
                         JObj [(''tool'', JStr ''eraser''),
                               (''points'', JArr [point_json (1, 1), point_json (5, 5), JNull]),
                               (''color'', JStr ''#dc3545''), (''thickness'', JInt 10)]]) = Some TypeError
   \<and> snd (drawOnCanvas True 300 400 (Some demo_broken_eraser)) = [TypeError]"
proof -
  let ?ekvs = "[(''tool'', JStr ''eraser''),
                (''points'', JArr (map num_point [((1, 0), (1, 0)), ((5, 0), (5, 0))])),
                (''color'', JStr ''#dc3545''), (''thickness'', JInt 10)]"
  let ?pen = "stroke_json pen [(1, 1), (5, 5)] ''#dc3545'' 5"
  let ?broken = "[?pen, JObj [(''tool'', JStr ''eraser''),
                               (''points'', JArr [point_json (1, 1), point_json (5, 5), JNull]),
                               (''color'', JStr ''#dc3545''), (''thickness'', JInt 10)]]"
  have k: "map_of ?ekvs ''tool'' = Some (JStr ''eraser'')" by simp
  have pk: "map_of ?ekvs ''points'' = Some (JArr (map num_point [((1, 0), (1, 0)), ((5, 0), (5, 0))]))"
    by simp
  have tk: "map_of ?ekvs ''thickness'' = Some (JNum 10 0)" by simp
  have p: "JSON_parse demo_drawing = Some (JArr ([?pen] @ [JObj ?ekvs]))" by code_simp
  have p2: "JSON_parse demo_drawing = Some (JArr [?pen, JObj ?ekvs])" using p by simp
  have f: "snd (forEach_line [?pen]) = None" by code_simp
  have f2: "snd (forEach_line [?pen, JObj ?ekvs]) = None" by code_simp
  have c: "vertex_cover [((1, 0), (1, 0)), ((5, 0), (5, 0))] (10, 0) (5, 5)"
    by (simp add: vertex_cover_def pixel_point_def)
  have b: "JSON_parse demo_broken_eraser = Some (JArr ?broken)" by code_simp
  have bf: "snd (forEach_line ?broken) = Some TypeError" by code_simp
  show ?thesis
    using eraser_composites_destination_out[where kvs = ?ekvs and d = demo_drawing
        and ls = "[?pen, JObj ?ekvs]" and d' = demo_drawing and ls' = "[?pen]" and ekvs = ?ekvs
        and pts = "[((1, 0), (1, 0)), ((5, 0), (5, 0))]" and m = 10 and k = 0
        and cover = vertex_cover and s = demo_surface and w = 300 and h = 400]
      eraser_composites_destination_out[where kvs = ?ekvs and d = demo_broken_eraser
        and ls = ?broken and d' = demo_drawing and ls' = "[?pen]" and ekvs = ?ekvs
        and pts = "[((1, 0), (1, 0)), ((5, 0), (5, 0))]" and m = 10 and k = 0
        and cover = vertex_cover and s = demo_surface and w = 300 and h = 400]
      k pk tk p p2 f f2 c b bf
    by simp
qed

end
